theory Spec2Isabelle
  imports Main "HOL-Library.Char_ord" "HOL-Library.List_Lexorder" "HOL-Library.Word"
begin

section \<open>The model-modifier store (frontend, ReAct chat)\<close>

text \<open>
  A JavaScript string is a sequence of UTF-16 code units. Every text of the store is such
  a sequence (\<open>jsstring\<close>): what the user types, the content of a message, of a step and
  of an event, the prompt of a request, an error message. The tags (the type of a message,
  of an event and of a step, the name of an action), the identifiers, the names and the
  timestamps, which the store only copies and compares, are kept as HOL strings; \<open>js\<close>
  writes an ASCII literal as code units.
\<close>

type_synonym code_unit = "16 word"

type_synonym jsstring = "code_unit list"

definition js :: "string \<Rightarrow> jsstring" where
  "js s = map of_char s"

text \<open>
  The store of the chat-based model modifier keeps the message history, the ReAct trace of
  the running request and the list of applied changes. A ReAct step is a JavaScript object
  \<^verbatim>\<open>{ type, content, action }\<close>; \<^verbatim>\<open>action\<close> is absent (\<open>None\<close>) on thought and
  observation steps. Action names are strings, so \<^verbatim>\<open>===\<close> on them is equality.
\<close>

record react_step =
  step_type :: string
  step_content :: jsstring
  step_action :: "string option"

text \<open>
  \<^verbatim>\<open>upsertReactStep(list, nextStep)\<close>: an empty list receives the step; otherwise the last
  entry is updated in place when it has the same type (and, for an action step, the same
  action), and the step is pushed in every other case. The list is mutated in place in the
  source; the model returns the new list.
\<close>

definition upsertReactStep :: "react_step list \<Rightarrow> react_step \<Rightarrow> react_step list" where
  "upsertReactStep list nextStep =
     (if list = [] then [nextStep]
      else
        let lst = last list;
            sameType = (step_type lst = step_type nextStep);
            sameAction = (step_type nextStep \<noteq> ''action'' \<or> step_action lst = step_action nextStep)
        in if sameType \<and> sameAction
           then butlast list @
                  [lst\<lparr>step_content := step_content nextStep,
                       step_action := (if step_type nextStep = ''action''
                                       then step_action nextStep else step_action lst)\<rparr>]
           else list @ [nextStep])"

text \<open>
  The invariant of a step list: two neighbours differ in type, or both are actions with
  different action names.
\<close>

definition adjacent_ok :: "react_step \<Rightarrow> react_step \<Rightarrow> bool" where
  "adjacent_ok a b =
     (step_type a \<noteq> step_type b \<or> (step_type b = ''action'' \<and> step_action a \<noteq> step_action b))"

fun react_inv :: "react_step list \<Rightarrow> bool" where
  "react_inv [] = True"
| "react_inv [x] = True"
| "react_inv (x # y # xs) = (adjacent_ok x y \<and> react_inv (y # xs))"

text \<open>The test of \<^verbatim>\<open>upsertReactStep\<close>: same type and, for an action step, same action.\<close>

definition same_step :: "react_step \<Rightarrow> react_step \<Rightarrow> bool" where
  "same_step lst nextStep =
     (step_type lst = step_type nextStep \<and>
      (step_type nextStep = ''action'' \<longrightarrow> step_action lst = step_action nextStep))"


subsection \<open>Messages, stream events and the store state\<close>

text \<open>
  A canvas node as \<^verbatim>\<open>sendMessage\<close> reads it (\<^verbatim>\<open>n.id\<close>, \<^verbatim>\<open>n.type\<close>, \<^verbatim>\<open>n.data?.name\<close>,
  \<^verbatim>\<open>n.data?.label\<close>, \<^verbatim>\<open>n.data?.type\<close>), and the summary of it kept on a user message.
\<close>

record canvas_node =
  cn_id :: string
  cn_type :: "string option"
  cn_data_name :: "string option"
  cn_data_label :: "string option"
  cn_data_type :: "string option"

record selected_ref =
  ref_id :: string
  ref_name :: "string option"
  ref_type :: "string option"

type_synonym change = string

text \<open>
  One record for the three shapes of message object (system, user, assistant); a field that
  a shape does not carry is empty or \<open>False\<close>, which is how the code reads an absent field.
\<close>

record message =
  msg_id :: string
  msg_type :: string
  msg_content :: jsstring
  msg_selectedNodes :: "selected_ref list"
  msg_timestamp :: string
  msg_isError :: bool
  msg_changes :: "change list"
  msg_reactSteps :: "react_step list"
  msg_isComplete :: bool

text \<open>A parsed server-sent event; \<open>ev_summary\<close> is empty when the event has none.\<close>

record stream_event =
  ev_type :: string
  ev_content :: jsstring
  ev_action :: "string option"
  ev_change :: change
  ev_summary :: jsstring
  ev_message :: jsstring

record store =
  messages :: "message list"
  isProcessing :: bool
  currentThought :: jsstring
  currentAction :: jsstring
  streamingContent :: jsstring
  reactTrace :: "react_step list"
  error :: "jsstring option"
  appliedChanges :: "change list"

text \<open>
  What lies outside the store: the canvas selection, the requests sent to
  \<^verbatim>\<open>/api/chat/modify\<close>, the calls of \<^verbatim>\<open>canvasStore.syncAfterChanges\<close>, and the number of
  identifiers and timestamps drawn so far (\<^verbatim>\<open>generateId\<close> reads the clock and
  \<^verbatim>\<open>Math.random\<close>; the model draws the \<open>n\<close>-th identifier from \<open>idSource\<close> and the
  \<open>n\<close>-th timestamp from \<open>clock\<close>).
\<close>

record request =
  req_prompt :: jsstring
  req_selectedNodes :: "canvas_node list"
  req_conversationHistory :: "message list"

record world =
  selectedNodes :: "canvas_node list"
  requests :: "request list"
  synced :: "change list list"
  ticks :: nat
  idSource :: "nat \<Rightarrow> string"
  clock :: "nat \<Rightarrow> string"

text \<open>
  The answer of \<^verbatim>\<open>fetch\<close>: the promise rejects, the response is not ok (with the
  \<^verbatim>\<open>detail\<close> of its JSON body, if any, and the status), or it is ok and streams the
  events that parse as JSON, in order.
\<close>

datatype fetch_result =
  FetchRejected jsstring
| NotOk "jsstring option" nat
| Ok "stream_event list"

subsection \<open>Strings\<close>

text \<open>
  \<^verbatim>\<open>String.prototype.trim\<close> is a built-in of the language; it is modelled as ECMAScript
  defines it (\<^verbatim>\<open>TrimString(S, start+end)\<close>): the longest prefix and the longest suffix of
  code points that are \<^verbatim>\<open>WhiteSpace\<close> or \<^verbatim>\<open>LineTerminator\<close> are removed.

    \<^item> \<^verbatim>\<open>LineTerminator\<close>: U+000A (LF), U+000D (CR), U+2028 (LINE SEPARATOR) and U+2029
      (PARAGRAPH SEPARATOR).
    \<^item> \<^verbatim>\<open>WhiteSpace\<close>: U+0009 (TAB), U+000B (VT), U+000C (FF), U+FEFF (ZERO WIDTH NO-BREAK
      SPACE) and every code point of the Unicode category Space_Separator, which is
      U+0020 (SPACE), U+00A0 (NO-BREAK SPACE), U+1680 (OGHAM SPACE MARK), U+2000 to U+200A
      (EN QUAD to HAIR SPACE), U+202F (NARROW NO-BREAK SPACE), U+205F (MEDIUM MATHEMATICAL
      SPACE) and U+3000 (IDEOGRAPHIC SPACE).

  All of them lie in the Basic Multilingual Plane, so each is one code unit, and no half of
  a surrogate pair is among them: trimming code points and trimming code units agree.
\<close>

definition is_line_terminator :: "code_unit \<Rightarrow> bool" where
  "is_line_terminator c = (c \<in> {0x000A, 0x000D, 0x2028, 0x2029})"

definition is_space_separator :: "code_unit \<Rightarrow> bool" where
  "is_space_separator c =
     (c \<in> {0x0020, 0x00A0, 0x1680, 0x202F, 0x205F, 0x3000} \<or> (0x2000 \<le> c \<and> c \<le> 0x200A))"

definition is_white_space :: "code_unit \<Rightarrow> bool" where
  "is_white_space c = (c \<in> {0x0009, 0x000B, 0x000C, 0xFEFF} \<or> is_space_separator c)"

definition is_js_whitespace :: "code_unit \<Rightarrow> bool" where
  "is_js_whitespace c = (is_white_space c \<or> is_line_terminator c)"

definition trimStart :: "jsstring \<Rightarrow> jsstring" where
  "trimStart s = dropWhile is_js_whitespace s"

definition trimEnd :: "jsstring \<Rightarrow> jsstring" where
  "trimEnd s = rev (dropWhile is_js_whitespace (rev s))"

definition trim :: "jsstring \<Rightarrow> jsstring" where
  "trim s = trimEnd (trimStart s)"

text \<open>\<^verbatim>\<open>a || b\<close> on optional strings: the empty string and \<^verbatim>\<open>undefined\<close> are falsy.\<close>

definition js_or :: "'a list option \<Rightarrow> 'a list option \<Rightarrow> 'a list option" where
  "js_or a b = (case a of Some s \<Rightarrow> (if s \<noteq> [] then Some s else b) | None \<Rightarrow> b)"

fun string_of_nat :: "nat \<Rightarrow> string" where
  "string_of_nat n =
     (if n < 10 then [char_of (48 + n)]
      else string_of_nat (n div 10) @ [char_of (48 + n mod 10)])"

declare string_of_nat.simps [simp del]

text \<open>The three Korean message texts of the store, as their code units.\<close>

definition select_first_text :: jsstring where
  "select_first_text =
     [0xBA3C, 0xC800, 0x0020, 0xCE94, 0xBC84, 0xC2A4, 0xC5D0, 0xC11C, 0x0020, 0xC218, 0xC815,
      0xD560, 0x0020, 0xAC1D, 0xCCB4, 0xB97C, 0x0020, 0xC120, 0xD0DD, 0xD574, 0xC8FC, 0xC138,
      0xC694, 0x002E]"

definition error_occurred_text :: jsstring where
  "error_occurred_text =
     [0xC624, 0xB958, 0xAC00, 0x0020, 0xBC1C, 0xC0DD, 0xD588, 0xC2B5, 0xB2C8, 0xB2E4, 0x003A,
      0x0020]"

definition error_text :: jsstring where
  "error_text = [0xC624, 0xB958, 0x003A, 0x0020]"

subsection \<open>Handling one stream event\<close>

definition new_message :: "world \<Rightarrow> string \<Rightarrow> jsstring \<Rightarrow> message" where
  "new_message w ty text =
     \<lparr>msg_id = idSource w (ticks w), msg_type = ty, msg_content = text, msg_selectedNodes = [],
      msg_timestamp = clock w (ticks w), msg_isError = False, msg_changes = [],
      msg_reactSteps = [], msg_isComplete = False\<rparr>"

definition tick :: "world \<Rightarrow> world" where
  "tick w = w\<lparr>ticks := Suc (ticks w)\<rparr>"

text \<open>
  \<^verbatim>\<open>updateLastAssistantMessage(message)\<close>: the first message with the same id is replaced
  by a copy; nothing happens when there is none (\<^verbatim>\<open>findIndex\<close> returns -1).
\<close>

fun replace_first :: "string \<Rightarrow> message \<Rightarrow> message list \<Rightarrow> message list" where
  "replace_first i m [] = []"
| "replace_first i m (x # xs) = (if msg_id x = i then m # xs else x # replace_first i m xs)"

definition updateLastAssistantMessage :: "message \<Rightarrow> store \<Rightarrow> store" where
  "updateLastAssistantMessage m st = st\<lparr>messages := replace_first (msg_id m) m (messages st)\<rparr>"

text \<open>
  \<^verbatim>\<open>handleStreamEvent(event, assistantMessage)\<close>, returning the assistant message with the
  store and the world. An event of any other type only refreshes the stored message.
\<close>

definition handleStreamEvent ::
  "stream_event \<Rightarrow> message \<times> store \<times> world \<Rightarrow> message \<times> store \<times> world" where
  "handleStreamEvent event s =
     (case s of (am, st, w) \<Rightarrow>
        let (am', st', w') =
          (if ev_type event = ''thought'' then
             let step = \<lparr>step_type = ''thought'', step_content = ev_content event,
                         step_action = None\<rparr>
             in (am\<lparr>msg_reactSteps := upsertReactStep (msg_reactSteps am) step\<rparr>,
                 st\<lparr>currentThought := ev_content event,
                    reactTrace := upsertReactStep (reactTrace st) step\<rparr>, w)
           else if ev_type event = ''action'' then
             let step = \<lparr>step_type = ''action'', step_content = ev_content event,
                         step_action = ev_action event\<rparr>
             in (am\<lparr>msg_reactSteps := upsertReactStep (msg_reactSteps am) step\<rparr>,
                 st\<lparr>currentAction := ev_content event,
                    reactTrace := upsertReactStep (reactTrace st) step\<rparr>, w)
           else if ev_type event = ''observation'' then
             let step = \<lparr>step_type = ''observation'', step_content = ev_content event,
                         step_action = None\<rparr>
             in (am\<lparr>msg_reactSteps := upsertReactStep (msg_reactSteps am) step\<rparr>,
                 st\<lparr>reactTrace := upsertReactStep (reactTrace st) step\<rparr>, w)
           else if ev_type event = ''change'' then
             (am\<lparr>msg_changes := msg_changes am @ [ev_change event]\<rparr>,
              st\<lparr>appliedChanges := appliedChanges st @ [ev_change event]\<rparr>, w)
           else if ev_type event = ''content'' then
             (am\<lparr>msg_content := msg_content am @ ev_content event\<rparr>,
              st\<lparr>streamingContent := msg_content am @ ev_content event\<rparr>, w)
           else if ev_type event = ''complete'' then
             (am\<lparr>msg_content := (if ev_summary event \<noteq> [] then ev_summary event
                                   else msg_content am),
                 msg_isComplete := True\<rparr>,
              st,
              if msg_changes am \<noteq> [] then w\<lparr>synced := synced w @ [msg_changes am]\<rparr> else w)
           else if ev_type event = ''error'' then
             (am\<lparr>msg_content := error_text @ ev_message event, msg_isError := True\<rparr>,
              st\<lparr>error := Some (ev_message event)\<rparr>, w)
           else (am, st, w))
        in (am', updateLastAssistantMessage am' st', w'))"

subsection \<open>Sending a message\<close>

text \<open>
  \<^verbatim>\<open>processModificationRequest(prompt, selectedNodes)\<close>. The request is recorded in the
  world; \<open>server\<close> answers it. A thrown error is \<open>Inl\<close> with its message and the state at
  the throw.
\<close>

definition processModificationRequest ::
  "(request \<Rightarrow> fetch_result) \<Rightarrow> jsstring \<Rightarrow> canvas_node list \<Rightarrow> store \<times> world
     \<Rightarrow> (jsstring \<times> store \<times> world) + (store \<times> world)" where
  "processModificationRequest server prompt nodes s =
     (case s of (st, w) \<Rightarrow>
        let req = \<lparr>req_prompt = prompt, req_selectedNodes = nodes,
                   req_conversationHistory = drop (length (messages st) - 10) (messages st)\<rparr>;
            w1 = w\<lparr>requests := requests w @ [req]\<rparr>
        in (case server req of
             FetchRejected m \<Rightarrow> Inl (m, st, w1)
           | NotOk detail status \<Rightarrow>
               Inl (the (js_or detail (Some (js (''API error: '' @ string_of_nat status)))),
                    st, w1)
           | Ok events \<Rightarrow>
               let assistantMessage = new_message w1 ''assistant'' [];
                   st1 = st\<lparr>messages := messages st @ [assistantMessage]\<rparr>;
                   (am, st2, w2) = fold handleStreamEvent events (assistantMessage, st1, tick w1)
               in Inr (updateLastAssistantMessage am st2, w2)))"

definition summarize :: "canvas_node \<Rightarrow> selected_ref" where
  "summarize n =
     \<lparr>ref_id = cn_id n, ref_name = js_or (cn_data_name n) (cn_data_label n),
      ref_type = js_or (cn_data_type n) (cn_type n)\<rparr>"

text \<open>
  \<^verbatim>\<open>sendMessage(content)\<close>: nothing for a blank content; a system hint when nothing is
  selected on the canvas; otherwise the user message is pushed, the session state is reset,
  the request is processed, a thrown error is reported as a system message, and in both
  cases the processing flags are cleared (\<^verbatim>\<open>finally\<close>).
\<close>

definition sendMessage ::
  "(request \<Rightarrow> fetch_result) \<Rightarrow> jsstring \<Rightarrow> store \<times> world \<Rightarrow> store \<times> world" where
  "sendMessage server content s =
     (case s of (st, w) \<Rightarrow>
        if trim content = [] then (st, w)
        else if selectedNodes w = [] then
          (st\<lparr>messages := messages st @ [new_message w ''system'' select_first_text]\<rparr>, tick w)
        else
          let userMessage = (new_message w ''user'' content)
                              \<lparr>msg_selectedNodes := map summarize (selectedNodes w)\<rparr>;
              st1 = st\<lparr>messages := messages st @ [userMessage]\<rparr>;
              st2 = st1\<lparr>isProcessing := True, error := None, reactTrace := [],
                        streamingContent := []\<rparr>;
              (st3, w3) =
                (case processModificationRequest server content (selectedNodes w) (st2, tick w) of
                   Inr (st', w') \<Rightarrow> (st', w')
                 | Inl (m, st', w') \<Rightarrow>
                     (st'\<lparr>error := Some m,
                         messages := messages st' @
                           [(new_message w' ''system'' (error_occurred_text @ m))
                              \<lparr>msg_isError := True\<rparr>]\<rparr>,
                      tick w'))
          in (st3\<lparr>isProcessing := False, currentThought := [], currentAction := []\<rparr>, w3))"

text \<open>
  A store in the middle of a session, with a selection on the canvas and a server that
  streams an answer, and a content made of white space and line terminators only:
  IDEOGRAPHIC SPACE, NO-BREAK SPACE, SPACE, ZERO WIDTH NO-BREAK SPACE, EM SPACE, LINE
  SEPARATOR, TAB, LF and OGHAM SPACE MARK.
\<close>

definition blank_content :: jsstring where
  "blank_content = [0x3000, 0x00A0, 0x0020, 0xFEFF, 0x2003, 0x2028, 0x0009, 0x000A, 0x1680]"

definition busy_store :: store where
  "busy_store =
     \<lparr>messages =
        [\<lparr>msg_id = ''m1'', msg_type = ''user'', msg_content = js ''rename it'',
          msg_selectedNodes = [\<lparr>ref_id = ''n1'', ref_name = Some ''Order'',
                                ref_type = Some ''aggregate''\<rparr>],
          msg_timestamp = ''t1'', msg_isError = False, msg_changes = [],
          msg_reactSteps = [], msg_isComplete = False\<rparr>],
      isProcessing = True, currentThought = js ''thinking'', currentAction = js ''rename'',
      streamingContent = js ''Re'',
      reactTrace = [\<lparr>step_type = ''thought'', step_content = js ''thinking'',
                     step_action = None\<rparr>],
      error = Some (js ''earlier failure''), appliedChanges = [''chg-1'']\<rparr>"

definition busy_world :: world where
  "busy_world =
     \<lparr>selectedNodes = [\<lparr>cn_id = ''n1'', cn_type = Some ''aggregate'',
                         cn_data_name = Some ''Order'', cn_data_label = None,
                         cn_data_type = None\<rparr>],
      requests = [\<lparr>req_prompt = js ''rename it'', req_selectedNodes = [],
                   req_conversationHistory = []\<rparr>],
      synced = [[''chg-1'']], ticks = 4, idSource = string_of_nat, clock = string_of_nat\<rparr>"

definition answering_server :: "request \<Rightarrow> fetch_result" where
  "answering_server r =
     Ok [\<lparr>ev_type = ''content'', ev_content = js ''done'', ev_action = None, ev_change = [],
          ev_summary = [], ev_message = []\<rparr>]"


section \<open>Regeneration phases\<close>

text \<open>
  The phase branch of the orchestrator, as the integration checklist gives it:
  \<^verbatim>\<open>
  def determine_phase_sequence(dirty_labels: Set[str]) -> List[str]:
      has_structure = any(l in dirty_labels for l in ["Aggregate", "Field"])
      has_behavior = any(l in dirty_labels for l in ["Command", "Event", "Policy"])
      if has_structure and has_behavior: return ["A", "B"]
      elif has_structure: return ["A"]
      elif has_behavior: return ["B"]
      else: return []
  \<close>
  Phase A is the structural phase (drafting of aggregates and fields), phase B the
  behavioural one (event storming).
\<close>

definition determine_phase_sequence :: "string set \<Rightarrow> string list" where
  "determine_phase_sequence dirty_labels =
     (let has_structure = list_ex (\<lambda>l. l \<in> dirty_labels) [''Aggregate'', ''Field''];
          has_behavior = list_ex (\<lambda>l. l \<in> dirty_labels) [''Command'', ''Event'', ''Policy'']
      in if has_structure \<and> has_behavior then [''A'', ''B'']
         else if has_structure then [''A'']
         else if has_behavior then [''B'']
         else [])"

text \<open>
  The decision table as the specification words it, with five structural kinds; it is
  compared with the function above.
\<close>

definition scope_as_specified :: "string set \<Rightarrow> string list" where
  "scope_as_specified dirtySet =
     (let structural = list_ex (\<lambda>l. l \<in> dirtySet)
            [''BoundedContext'', ''Aggregate'', ''Entity'', ''ValueObject'', ''Field''];
          behavioral = list_ex (\<lambda>l. l \<in> dirtySet) [''Command'', ''Event'', ''Policy'']
      in (if structural then [''A''] else []) @ (if behavioral then [''B''] else []))"

section \<open>The knowledge graph\<close>

text \<open>
  Node labels and relationship types of the graph schema. A node is keyed by its label and
  identifier and carries a property map; the store's attribute types are string, number,
  boolean, timestamp and list of strings.
\<close>

datatype kind =
  Epic | UserStory | AcceptanceCriterion
| BoundedContext | Aggregate | Entity | ValueObject | Field_kind
| Command | Event | Policy

datatype rel =
  HAS_STORY | HAS_CRITERION
| HAS_AGGREGATE | HAS_ENTITY | HAS_VALUE_OBJECT | HAS_FIELD
| REFERS_TO_AGGREGATE | REFERS_TO_FIELD
| HANDLES_COMMAND | EMITS_EVENT | LISTENS_EVENT | TRIGGERS_COMMAND | AFFECTS_AGGREGATE
| IMPACTS_AGGREGATE | IMPACTS_FIELD | COVERS_COMMAND | COVERS_EVENT

datatype pvalue = PStr string | PNum int | PBool bool | PTime nat | PList "string list"

type_synonym props = "string \<rightharpoonup> pvalue"

datatype engine_error =
  SchemaViolation | DuplicateIdentifierConflict | DanglingReference | ImpactTraversalTimeout
| TransactionAbort | InvalidPhaseSequence | ConcurrentModificationConflict

record change_record =
  ch_id :: string
  ch_label :: kind
  ch_node_id :: string
  ch_before_hash :: "string option"
  ch_after_hash :: string
  ch_reason :: string
  ch_at :: nat

datatype run_status = Queued | Running | Completed | Failed

record run =
  run_id :: string
  run_phase :: string
  run_agent :: string
  run_status :: run_status
  started_at :: nat
  ended_at :: "nat option"

text \<open>
  The graph: nodes, relationships (source, type, target), the append-only Change log, the
  Runs and their \<^verbatim>\<open>TOUCHED\<close> edges (run id, node id). The \<^verbatim>\<open>CHANGED\<close> edge of a Change
  record is its pair of label and node id.
\<close>

record graph =
  nodes :: "kind \<times> string \<rightharpoonup> props"
  edges :: "(string \<times> rel \<times> string) list"
  changes :: "change_record list"
  runs :: "run list"
  touched :: "(string \<times> string) list"

definition all_kinds :: "kind list" where
  "all_kinds = [Epic, UserStory, AcceptanceCriterion, BoundedContext, Aggregate, Entity,
                ValueObject, Field_kind, Command, Event, Policy]"

text \<open>The label of the node with a given identifier (identifiers are unique across labels).\<close>

definition kind_of :: "graph \<Rightarrow> string \<Rightarrow> kind option" where
  "kind_of g n = find (\<lambda>k. nodes g (k, n) \<noteq> None) all_kinds"

subsection \<open>The v1.1 test dataset\<close>

text \<open>
  The nodes and relationships that the script of the minimal test dataset creates
  (\<^verbatim>\<open>example-data-v1_1-test.cypher\<close>), in the script's order. Of the properties it sets,
  the fingerprint \<^verbatim>\<open>source_hash\<close> of the two requirement nodes and the \<^verbatim>\<open>name\<close> of the
  design nodes are kept; no operation below reads another one.
\<close>

definition hashed :: "string \<Rightarrow> props" where
  "hashed h = [''source_hash'' \<mapsto> PStr h]"

definition named :: "string \<Rightarrow> props" where
  "named n = [''name'' \<mapsto> PStr n]"

definition test_nodes :: "kind \<times> string \<rightharpoonup> props" where
  "test_nodes =
     [(Epic, ''EP_001'') \<mapsto> Map.empty,
      (UserStory, ''US_001'') \<mapsto> hashed ''H1'',
      (AcceptanceCriterion, ''AC_001'') \<mapsto> hashed ''H1'',
      (BoundedContext, ''BC_ORDER'') \<mapsto> named ''Order'',
      (Aggregate, ''AGG_ORDER'') \<mapsto> named ''Order'',
      (Aggregate, ''AGG_STOCK'') \<mapsto> named ''Stock'',
      (Field_kind, ''F_ORDER_AMOUNT'') \<mapsto> named ''amount'',
      (Field_kind, ''F_ORDER_ID'') \<mapsto> named ''orderId'',
      (Command, ''CMD_PLACE_ORDER'') \<mapsto> named ''PlaceOrder'',
      (Event, ''EVT_ORDER_PLACED'') \<mapsto> named ''OrderPlaced'',
      (Policy, ''POL_RESERVE_STOCK'') \<mapsto> named ''ReserveStockOnOrderPlaced'',
      (Command, ''CMD_RESERVE_STOCK'') \<mapsto> named ''ReserveStock'']"

definition test_edges :: "(string \<times> rel \<times> string) list" where
  "test_edges =
     [(''EP_001'', HAS_STORY, ''US_001''),
      (''US_001'', HAS_CRITERION, ''AC_001''),
      (''BC_ORDER'', HAS_AGGREGATE, ''AGG_ORDER''),
      (''BC_ORDER'', HAS_AGGREGATE, ''AGG_STOCK''),
      (''AGG_ORDER'', HAS_FIELD, ''F_ORDER_ID''),
      (''AGG_ORDER'', HAS_FIELD, ''F_ORDER_AMOUNT''),
      (''US_001'', IMPACTS_AGGREGATE, ''AGG_ORDER''),
      (''AC_001'', IMPACTS_FIELD, ''F_ORDER_AMOUNT''),
      (''AGG_ORDER'', HANDLES_COMMAND, ''CMD_PLACE_ORDER''),
      (''CMD_PLACE_ORDER'', EMITS_EVENT, ''EVT_ORDER_PLACED''),
      (''POL_RESERVE_STOCK'', LISTENS_EVENT, ''EVT_ORDER_PLACED''),
      (''POL_RESERVE_STOCK'', TRIGGERS_COMMAND, ''CMD_RESERVE_STOCK''),
      (''EVT_ORDER_PLACED'', AFFECTS_AGGREGATE, ''AGG_STOCK''),
      (''AC_001'', COVERS_COMMAND, ''CMD_PLACE_ORDER''),
      (''AC_001'', COVERS_EVENT, ''EVT_ORDER_PLACED'')]"

definition test_graph :: graph where
  "test_graph = \<lparr>nodes = test_nodes, edges = test_edges, changes = [], runs = [], touched = []\<rparr>"

text \<open>
  A synthetic event chain that cycles: the policy listens to the event and triggers the
  command that emits the same event again.
\<close>

definition cycle_graph :: graph where
  "cycle_graph =
     \<lparr>nodes = [(Command, ''CMD_X'') \<mapsto> Map.empty, (Event, ''EVT_X'') \<mapsto> Map.empty,
               (Policy, ''POL_X'') \<mapsto> Map.empty, (Aggregate, ''AGG_X'') \<mapsto> Map.empty],
      edges = [(''CMD_X'', EMITS_EVENT, ''EVT_X''), (''POL_X'', LISTENS_EVENT, ''EVT_X''),
               (''POL_X'', TRIGGERS_COMMAND, ''CMD_X''), (''EVT_X'', AFFECTS_AGGREGATE, ''AGG_X'')],
      changes = [], runs = [], touched = []\<rparr>"

section \<open>Impact Analyzer\<close>

text \<open>
  Modelled from the spec: the Impact Analyzer (\<^verbatim>\<open>findImpact\<close>, the module
  \<^verbatim>\<open>python/impact.py\<close>) is not among the sources; the definitions of this section follow
  section 4.4 of the specification. The traversal is breadth-first from the roots and
  follows three classes of relationship, each in the direction of impact: structural
  containment (\<^verbatim>\<open>HAS_*\<close>, parent to child), trace relationships (\<^verbatim>\<open>IMPACTS_*\<close>,
  \<^verbatim>\<open>COVERS_*\<close>) and the event chain (Aggregate handles Command emits Event is listened to
  by Policy triggers Command). \<^verbatim>\<open>LISTENS_EVENT\<close> is stored from the policy to the event
  and is followed from the event to the policy. \<^verbatim>\<open>AFFECTS_AGGREGATE\<close> is the extra leg: it
  is never a hop, its target goes to \<open>affected_aggregates\<close>. The static references
  \<^verbatim>\<open>REFERS_TO_*\<close> belong to none of the three classes. The wall-clock budget
  (\<^verbatim>\<open>ImpactTraversalTimeout\<close>) is not modelled.
\<close>

fun hop :: "string \<times> rel \<times> string \<Rightarrow> (string \<times> string) option" where
  "hop (a, LISTENS_EVENT, b) = Some (b, a)"
| "hop (a, AFFECTS_AGGREGATE, b) = None"
| "hop (a, REFERS_TO_AGGREGATE, b) = None"
| "hop (a, REFERS_TO_FIELD, b) = None"
| "hop (a, r, b) = Some (a, b)"

definition successors :: "graph \<Rightarrow> string \<Rightarrow> string list" where
  "successors g n =
     List.map_filter
       (\<lambda>e. case hop e of Some (a, b) \<Rightarrow> (if a = n then Some b else None) | None \<Rightarrow> None)
       (edges g)"

definition affects :: "graph \<Rightarrow> string \<Rightarrow> string list" where
  "affects g n =
     List.map_filter
       (\<lambda>e. case e of (a, r, b) \<Rightarrow> (if a = n \<and> r = AFFECTS_AGGREGATE then Some b else None))
       (edges g)"

text \<open>
  Modelled from the spec: the traversal loop of \<^verbatim>\<open>findImpact\<close> (section 4.4: breadth-first,
  a visited set, a hop bound), which is not among the sources. It keeps a queue of nodes
  with their depth and the list of visited identifiers, in order of discovery. A node whose depth has reached \<open>maxHops\<close> is not
  expanded; a successor enters the queue only if it has not been visited. The loop is
  defined without a termination argument: that it returns is a theorem below.
\<close>

partial_function (option) bfs ::
  "graph \<Rightarrow> nat \<Rightarrow> (string \<times> nat) list \<Rightarrow> string list \<Rightarrow> string list option" where
  [code]: "bfs g maxHops queue visited =
     (case queue of
        [] \<Rightarrow> Some visited
      | (n, d) # rest \<Rightarrow>
          if maxHops \<le> d then bfs g maxHops rest visited
          else
            let new = remdups (filter (\<lambda>m. m \<notin> set visited) (successors g n))
            in bfs g maxHops (rest @ map (\<lambda>m. (m, Suc d)) new) (visited @ new))"

record impact =
  impacted :: "kind \<Rightarrow> string list"
  affected_aggregates :: "string list"

text \<open>
  Modelled from the spec: \<^verbatim>\<open>findImpact(rootIds, maxHops)\<close> of the Impact Analyzer, which is
  not among the sources (section 4.4: a mapping from node kind to a sorted, de-duplicated
  list of impacted identifiers, plus the list of affected aggregates). It returns the
  nodes discovered from the roots, grouped by kind and sorted, and the targets of the \<^verbatim>\<open>affects\<close> edges of every Event among the visited
  nodes, sorted and without duplicates. The roots themselves are not impacted nodes.
\<close>

definition findImpact :: "graph \<Rightarrow> string list \<Rightarrow> nat \<Rightarrow> impact option" where
  "findImpact g rootIds maxHops =
     (let roots = remdups rootIds
      in case bfs g maxHops (map (\<lambda>r. (r, 0)) roots) roots of
           None \<Rightarrow> None
         | Some visited \<Rightarrow>
             Some \<lparr>impacted =
                     (\<lambda>k. sort (filter (\<lambda>n. kind_of g n = Some k) (drop (length roots) visited))),
                   affected_aggregates =
                     sort (remdups (concat (map (affects g)
                       (filter (\<lambda>n. kind_of g n = Some Event) visited))))\<rparr>)"

definition default_maxHops :: nat where
  "default_maxHops = 3"

text \<open>
  Every node that a hop can lead to; the traversal never visits another node, the roots
  apart.
\<close>

definition hop_targets :: "graph \<Rightarrow> string set" where
  "hop_targets g = {b. \<exists>e \<in> set (edges g). \<exists>a. hop e = Some (a, b)}"

text \<open>
  The nodes within \<open>d\<close> hops of the roots, for stating the depth bound of the traversal.
\<close>

fun within :: "graph \<Rightarrow> string list \<Rightarrow> nat \<Rightarrow> string set" where
  "within g rootIds 0 = set rootIds"
| "within g rootIds (Suc d) =
     within g rootIds d \<union> (\<Union>n \<in> within g rootIds d. set (successors g n))"

text \<open>
  The invariant of the traversal loop while it works on level \<open>d0\<close>: the queue holds
  entries of level \<open>d0\<close> followed by entries of level \<open>d0 + 1\<close>, each a visited node
  within that many hops; every node within \<open>d0\<close> hops is visited and, below the hop
  bound, is still queued at level \<open>d0\<close> or has all its successors visited; the nodes
  queued at level \<open>d0 + 1\<close> are not within \<open>d0\<close> hops; and every visited node is within
  \<open>d0\<close> hops or queued at level \<open>d0 + 1\<close>.
\<close>

definition level_inv ::
  "graph \<Rightarrow> string list \<Rightarrow> nat \<Rightarrow> nat \<Rightarrow> (string \<times> nat) list \<Rightarrow> string list \<Rightarrow> bool" where
  "level_inv g rootIds maxHops d0 queue visited =
     (d0 \<le> maxHops \<and>
      (\<forall>n d. (n, d) \<in> set queue \<longrightarrow>
         (d = d0 \<or> d = Suc d0) \<and> d \<le> maxHops \<and> n \<in> set visited \<and> n \<in> within g rootIds d) \<and>
      sorted (map snd queue) \<and>
      within g rootIds d0 \<subseteq> set visited \<and>
      (\<forall>u \<in> within g rootIds d0.
         d0 < maxHops \<longrightarrow> (u, d0) \<in> set queue \<or> set (successors g u) \<subseteq> set visited) \<and>
      (\<forall>n. (n, Suc d0) \<in> set queue \<longrightarrow> n \<notin> within g rootIds d0) \<and>
      set visited \<subseteq> within g rootIds d0 \<union> {n. (n, Suc d0) \<in> set queue})"

text \<open>
  The six lists that the expected results of the test procedure name: the impacted
  Aggregates, Fields, Commands, Events and Policies, and the affected aggregates.
\<close>

definition report ::
  "impact option \<Rightarrow>
     (string list \<times> string list \<times> string list \<times> string list \<times> string list \<times> string list) option" where
  "report res =
     map_option
       (\<lambda>r. (impacted r Aggregate, impacted r Field_kind, impacted r Command, impacted r Event,
             impacted r Policy, affected_aggregates r))
       res"


section \<open>Upsert statements\<close>

text \<open>
  The upserts are the Cypher statements of the test data script, which is safe to re-run.
  \<^verbatim>\<open>MERGE (us:UserStory {id:'US_001'}) SET us.priority='high', us.source_hash='H1'\<close>
  creates the node of this label and id unless it exists, then sets the named properties
  and keeps every other one.
  \<^verbatim>\<open>MATCH (ep:Epic {id:'EP_001'}), (us:UserStory {id:'US_001'}) MERGE (ep)-[:HAS_STORY]->(us)\<close>
  creates the relationship unless it exists; when one of the two nodes is missing,
  \<^verbatim>\<open>MATCH\<close> yields no row and nothing is created. (The Python wrapper around these
  statements, \<^verbatim>\<open>UpsertManager\<close>, is not among the sources.)
\<close>

definition merge_set :: "kind \<Rightarrow> string \<Rightarrow> props \<Rightarrow> graph \<Rightarrow> graph" where
  "merge_set k i attrs g =
     g\<lparr>nodes := (nodes g)((k, i) \<mapsto>
          (case nodes g (k, i) of None \<Rightarrow> Map.empty | Some old \<Rightarrow> old) ++ attrs)\<rparr>"

definition match_merge :: "kind \<times> string \<Rightarrow> rel \<Rightarrow> kind \<times> string \<Rightarrow> graph \<Rightarrow> graph" where
  "match_merge a r b g =
     (if nodes g a = None \<or> nodes g b = None then g
      else if (snd a, r, snd b) \<in> set (edges g) then g
      else g\<lparr>edges := edges g @ [(snd a, r, snd b)]\<rparr>)"

text \<open>
  \<^verbatim>\<open>upsert(kind, payload)\<close>: the node statement, followed by the relationship statement
  from the declared parent when the payload names one. A payload carries the identifier,
  the properties to set and, optionally, the parent with the containment relationship.
\<close>

record payload =
  p_id :: string
  p_attrs :: props
  p_parent :: "(kind \<times> string \<times> rel) option"

definition upsert :: "kind \<Rightarrow> payload \<Rightarrow> graph \<Rightarrow> graph" where
  "upsert k p g =
     (let g1 = merge_set k (p_id p) (p_attrs p) g
      in case p_parent p of
           None \<Rightarrow> g1
         | Some (pk, pid, r) \<Rightarrow> match_merge (pk, pid) r (k, p_id p) g1)"

text \<open>The fingerprint stored on a node: its \<^verbatim>\<open>source_hash\<close> property.\<close>

definition stored_hash :: "graph \<Rightarrow> kind \<Rightarrow> string \<Rightarrow> string option" where
  "stored_hash g k i =
     (case nodes g (k, i) of
        None \<Rightarrow> None
      | Some ps \<Rightarrow> (case ps ''source_hash'' of Some (PStr h) \<Rightarrow> Some h | _ \<Rightarrow> None))"

section \<open>Change Detector\<close>

text \<open>
  Modelled from the spec: the Change Detector (\<^verbatim>\<open>python/change_detection.py\<close>) is not
  among the sources; \<open>detect\<close> follows section 4.3 of the specification and option A of
  the improvement spec (the new hash is compared with the \<^verbatim>\<open>after_hash\<close> of the latest
  Change of the node). The Change log is append-only, so the latest record of a node is the
  last one in the log; without any record the baseline is the \<^verbatim>\<open>source_hash\<close> stored on
  the node. The fingerprint function is a parameter, as are the reason and the time of the
  new record.
\<close>

definition latest_change :: "graph \<Rightarrow> kind \<Rightarrow> string \<Rightarrow> change_record option" where
  "latest_change g k i =
     (let cs = filter (\<lambda>c. ch_label c = k \<and> ch_node_id c = i) (changes g)
      in if cs = [] then None else Some (last cs))"

definition recorded_fingerprint :: "graph \<Rightarrow> kind \<Rightarrow> string \<Rightarrow> string option" where
  "recorded_fingerprint g k i =
     (case latest_change g k i of
        Some c \<Rightarrow> Some (ch_after_hash c)
      | None \<Rightarrow> stored_hash g k i)"

text \<open>
  Modelled from the spec: \<^verbatim>\<open>detect(kind, id, payload)\<close> of the Change Detector, which is not
  among the sources (section 4.3: compute the fingerprint of the payload, look up the one
  recorded last, create a Change record and answer \<open>True\<close> if none is recorded or it
  differs, answer \<open>False\<close> and write nothing otherwise).
\<close>

definition detect ::
  "(payload \<Rightarrow> string) \<Rightarrow> string \<Rightarrow> nat \<Rightarrow> kind \<Rightarrow> string \<Rightarrow> payload \<Rightarrow> graph
     \<Rightarrow> bool \<times> graph" where
  "detect fingerprint reason now k i p g =
     (let after_hash = fingerprint p;
          before_hash = recorded_fingerprint g k i
      in if before_hash = Some after_hash then (False, g)
         else (True,
               g\<lparr>changes := changes g @
                    [\<lparr>ch_id = ''CHG_'' @ string_of_nat (length (changes g)), ch_label = k,
                      ch_node_id = i, ch_before_hash = before_hash, ch_after_hash = after_hash,
                      ch_reason = reason, ch_at = now\<rparr>]\<rparr>))"

subsection \<open>The change of the test procedure\<close>

text \<open>
  Step 4 of the test procedure changes the \<^verbatim>\<open>source_hash\<close> of \<^verbatim>\<open>US_001\<close> from
  \<^verbatim>\<open>H1\<close> to \<^verbatim>\<open>H2\<close>. The fingerprint of a payload is here the \<^verbatim>\<open>source_hash\<close> that it
  carries; \<open>edited_graph\<close> is the test graph after the change has been detected.
\<close>

definition source_hash_of :: "payload \<Rightarrow> string" where
  "source_hash_of p = (case p_attrs p ''source_hash'' of Some (PStr h) \<Rightarrow> h | _ \<Rightarrow> [])"

definition us_001_edited :: payload where
  "us_001_edited = \<lparr>p_id = ''US_001'', p_attrs = hashed ''H2'', p_parent = None\<rparr>"

definition edited_graph :: graph where
  "edited_graph =
     snd (detect source_hash_of ''story edited'' 1 UserStory ''US_001'' us_001_edited test_graph)"

section \<open>Dirty marking statements\<close>

text \<open>
  The dirty flags are set and removed by the Cypher statements of the test procedure and
  of the test data scripts:
  \<^verbatim>\<open>MATCH (a:Aggregate {id:'AGG_ORDER'}) SET a.dirty=true, a.dirty_reason='test', a.dirty_at=datetime()\<close>
  and
  \<^verbatim>\<open>MATCH (n) WHERE n.dirty = true REMOVE n.dirty, n.dirty_reason, n.dirty_at\<close>.
  A \<^verbatim>\<open>MATCH\<close> that finds no node changes nothing. (The Python wrappers
  \<^verbatim>\<open>mark_dirty(node_ids, node_label, reason)\<close> and \<^verbatim>\<open>clear_dirty\<close> are not among the
  sources.)
\<close>

definition mark_node :: "string \<Rightarrow> nat \<Rightarrow> props \<Rightarrow> props" where
  "mark_node reason now ps =
     ps(''dirty'' \<mapsto> PBool True, ''dirty_reason'' \<mapsto> PStr reason, ''dirty_at'' \<mapsto> PTime now)"

definition clear_node :: "props \<Rightarrow> props" where
  "clear_node ps = ps(''dirty'' := None, ''dirty_reason'' := None, ''dirty_at'' := None)"

text \<open>A property update on the nodes of a label whose identifier is in a list.\<close>

definition on_nodes :: "(props \<Rightarrow> props) \<Rightarrow> string list \<Rightarrow> kind \<Rightarrow> graph \<Rightarrow> graph" where
  "on_nodes f ids k g =
     g\<lparr>nodes := (\<lambda>key. if fst key = k \<and> snd key \<in> set ids
                        then map_option f (nodes g key) else nodes g key)\<rparr>"

text \<open>
  \<^verbatim>\<open>mark(ids, kind, reason)\<close>: the \<^verbatim>\<open>SET\<close> statement for the nodes of the label whose
  identifier is in the list, at the time \<open>now\<close>. \<^verbatim>\<open>clear(ids, kind)\<close>: the \<^verbatim>\<open>REMOVE\<close> of
  the three properties for the nodes of the label whose identifier is in the list.
  \<open>clear_all\<close>: the \<^verbatim>\<open>REMOVE\<close> statement as the scripts have it, for every node whose
  \<^verbatim>\<open>dirty\<close> is true. \<open>list_dirty\<close>: the nodes that the query
  \<^verbatim>\<open>MATCH (n) WHERE n.dirty=true RETURN ...\<close> returns, of one label or of all.
\<close>

definition mark :: "string list \<Rightarrow> kind \<Rightarrow> string \<Rightarrow> nat \<Rightarrow> graph \<Rightarrow> graph" where
  "mark ids k reason now g = on_nodes (mark_node reason now) ids k g"

definition clear :: "string list \<Rightarrow> kind \<Rightarrow> graph \<Rightarrow> graph" where
  "clear ids k g = on_nodes clear_node ids k g"

definition clear_all :: "graph \<Rightarrow> graph" where
  "clear_all g =
     g\<lparr>nodes := (\<lambda>key. map_option
          (\<lambda>ps. if ps ''dirty'' = Some (PBool True) then clear_node ps else ps) (nodes g key))\<rparr>"

definition list_dirty :: "kind option \<Rightarrow> graph \<Rightarrow> (kind \<times> string) set" where
  "list_dirty ko g =
     {key. (ko = None \<or> ko = Some (fst key)) \<and>
           (\<exists>ps. nodes g key = Some ps \<and> ps ''dirty'' = Some (PBool True))}"

text \<open>
  The dirty state of a node is whole when its three fields are all present or all absent.
\<close>

definition dirty_whole :: "props \<Rightarrow> bool" where
  "dirty_whole ps =
     ((ps ''dirty'' \<noteq> None \<and> ps ''dirty_reason'' \<noteq> None \<and> ps ''dirty_at'' \<noteq> None) \<or>
      (ps ''dirty'' = None \<and> ps ''dirty_reason'' = None \<and> ps ''dirty_at'' = None))"

definition dirty_free :: "props \<Rightarrow> bool" where
  "dirty_free ps = (ps ''dirty'' = None \<and> ps ''dirty_reason'' = None \<and> ps ''dirty_at'' = None)"

definition dirty_invariant :: "graph \<Rightarrow> bool" where
  "dirty_invariant g = (\<forall>key ps. nodes g key = Some ps \<longrightarrow> dirty_whole ps)"

section \<open>Run Tracker\<close>

text \<open>
  Modelled from the spec: the Run Tracker is not among the sources; \<open>start\<close>, \<open>touch\<close> and
  \<open>finish\<close> follow section 4.8 of the specification and the \<^verbatim>\<open>:Run\<close> metadata of the
  job-queue spec. A Run that the tracker starts is running and has its start time; the
  status \<open>Queued\<close> belongs to a Run that the job queue has created and no worker has
  started yet. \<open>finish\<close> takes one of the two terminal states. A run id that matches no
  Run is a \<open>DanglingReference\<close>; a terminal Run accepts neither \<open>touch\<close> nor \<open>finish\<close>.
\<close>

datatype final_status = FinalCompleted | FinalFailed

fun status_of :: "final_status \<Rightarrow> run_status" where
  "status_of FinalCompleted = Completed"
| "status_of FinalFailed = Failed"

fun terminal :: "run_status \<Rightarrow> bool" where
  "terminal Completed = True"
| "terminal Failed = True"
| "terminal _ = False"

definition find_run :: "graph \<Rightarrow> string \<Rightarrow> run option" where
  "find_run g rid = find (\<lambda>r. run_id r = rid) (runs g)"

fun update_run :: "string \<Rightarrow> (run \<Rightarrow> run) \<Rightarrow> run list \<Rightarrow> run list" where
  "update_run rid f [] = []"
| "update_run rid f (r # rs) = (if run_id r = rid then f r # rs else r # update_run rid f rs)"

text \<open>
  Modelled from the spec: \<^verbatim>\<open>start(phase, agent)\<close>, \<^verbatim>\<open>touch(runId, nodeIds)\<close> and
  \<^verbatim>\<open>finish(runId, status)\<close> of the Run Tracker, which are not among the sources (section
  4.8: \<open>start\<close> returns the id of a new Run, \<open>touch\<close> appends \<^verbatim>\<open>TOUCHED\<close> edges,
  \<open>finish\<close> sets the terminal state and the end time and fails with
  \<open>InvalidPhaseSequence\<close> on a Run that is terminal already).
\<close>

definition start :: "string \<Rightarrow> string \<Rightarrow> nat \<Rightarrow> graph \<Rightarrow> string \<times> graph" where
  "start phase agent now g =
     (let rid = ''RUN_'' @ string_of_nat (length (runs g))
      in (rid,
          g\<lparr>runs := runs g @
               [\<lparr>run_id = rid, run_phase = phase, run_agent = agent, run_status = Running,
                 started_at = now, ended_at = None\<rparr>]\<rparr>))"

definition touch :: "string \<Rightarrow> string list \<Rightarrow> graph \<Rightarrow> engine_error + graph" where
  "touch rid nodeIds g =
     (case find_run g rid of
        None \<Rightarrow> Inl DanglingReference
      | Some r \<Rightarrow>
          if terminal (run_status r) then Inl InvalidPhaseSequence
          else Inr (g\<lparr>touched := touched g @ map (\<lambda>n. (rid, n)) nodeIds\<rparr>))"

definition finish :: "string \<Rightarrow> final_status \<Rightarrow> nat \<Rightarrow> graph \<Rightarrow> engine_error + graph" where
  "finish rid status now g =
     (case find_run g rid of
        None \<Rightarrow> Inl DanglingReference
      | Some r \<Rightarrow>
          if terminal (run_status r) then Inl InvalidPhaseSequence
          else Inr (g\<lparr>runs := update_run rid
                      (\<lambda>r. r\<lparr>run_status := status_of status, ended_at := Some now\<rparr>) (runs g)\<rparr>))"

text \<open>
  A history of tracker calls. A call that fails raises and leaves the graph as it was.
\<close>

datatype tracker_call =
  Start string string nat
| Touch string "string list"
| Finish string final_status nat

fun call :: "tracker_call \<Rightarrow> graph \<Rightarrow> graph" where
  "call (Start phase agent now) g = snd (start phase agent now g)"
| "call (Touch rid nodeIds) g = (case touch rid nodeIds g of Inl e \<Rightarrow> g | Inr g' \<Rightarrow> g')"
| "call (Finish rid status now) g = (case finish rid status now g of Inl e \<Rightarrow> g | Inr g' \<Rightarrow> g')"

text \<open>
  The order of the states: \<open>Queued\<close>, then \<open>Running\<close>, then the two terminal states;
  \<open>forward s s'\<close> says that \<open>s'\<close> is \<open>s\<close> or lies after it.
\<close>

fun rank :: "run_status \<Rightarrow> nat" where
  "rank Queued = 0"
| "rank Running = 1"
| "rank Completed = 2"
| "rank Failed = 2"

definition forward :: "run_status \<Rightarrow> run_status \<Rightarrow> bool" where
  "forward s s' = (s = s' \<or> rank s < rank s')"

text \<open>The single steps of the chain queued, running, completed or failed.\<close>

inductive status_step :: "run_status \<Rightarrow> run_status \<Rightarrow> bool" where
  "status_step Queued Running"
| "status_step Running Completed"
| "status_step Running Failed"

definition touched_by :: "graph \<Rightarrow> string \<Rightarrow> string list" where
  "touched_by g rid = map snd (filter (\<lambda>e. fst e = rid) (touched g))"


text \<open>
  A history on the test graph: a Run of phase A is started, touches an aggregate and
  completes; later calls try to touch and to finish it again, and start another Run.
\<close>

definition started_graph :: graph where
  "started_graph = snd (start ''A'' ''aggregate_draft'' 1 test_graph)"

definition first_calls :: "tracker_call list" where
  "first_calls = [Touch ''RUN_0'' [''AGG_ORDER''], Finish ''RUN_0'' FinalCompleted 2]"

definition late_calls :: "tracker_call list" where
  "late_calls = [Touch ''RUN_0'' [''F_ORDER_ID''], Finish ''RUN_0'' FinalFailed 3,
                 Start ''B'' ''event_storming'' 4]"

section \<open>Properties of the model-modifier store\<close>

lemma react_inv_snoc:
  "xs \<noteq> [] \<Longrightarrow> react_inv (xs @ [a]) = (react_inv xs \<and> adjacent_ok (last xs) a)"
  by (induction xs rule: react_inv.induct) auto

lemma react_inv_replace_last:
  "react_inv xs \<Longrightarrow> xs \<noteq> [] \<Longrightarrow> step_type l = step_type (last xs) \<Longrightarrow>
   step_action l = step_action (last xs) \<Longrightarrow> react_inv (butlast xs @ [l])"
proof (induction xs rule: react_inv.induct)
  case 1
  then show ?case by simp
next
  case (2 x)
  then show ?case by simp
next
  case (3 x y xs)
  show ?case
  proof (cases xs)
    case Nil
    with 3 show ?thesis by (simp add: adjacent_ok_def)
  next
    case (Cons z zs)
    with 3 have "react_inv (butlast (y # xs) @ [l])" by simp
    moreover from Cons have "butlast (y # xs) @ [l] = y # (butlast xs @ [l])" by simp
    moreover from Cons have "butlast (x # y # xs) @ [l] = x # y # (butlast xs @ [l])" by simp
    ultimately show ?thesis using 3(2) by simp
  qed
qed

lemma upsertReactStep_update:
  "list \<noteq> [] \<Longrightarrow> same_step (last list) nextStep \<Longrightarrow>
   upsertReactStep list nextStep =
     butlast list @ [(last list)\<lparr>step_content := step_content nextStep\<rparr>]"
  by (auto simp: upsertReactStep_def same_step_def Let_def)

lemma upsertReactStep_push:
  "list \<noteq> [] \<Longrightarrow> \<not> same_step (last list) nextStep \<Longrightarrow>
   upsertReactStep list nextStep = list @ [nextStep]"
  by (auto simp: upsertReactStep_def same_step_def Let_def)

lemma upsertReactStep_inv:
  assumes "react_inv list"
  shows "react_inv (upsertReactStep list nextStep)"
proof (cases "list = []")
  case True
  then show ?thesis by (simp add: upsertReactStep_def)
next
  case ne: False
  show ?thesis
  proof (cases "same_step (last list) nextStep")
    case True
    have "react_inv (butlast list @ [(last list)\<lparr>step_content := step_content nextStep\<rparr>])"
      using assms ne by (intro react_inv_replace_last) simp_all
    then show ?thesis by (simp only: upsertReactStep_update [OF ne True])
  next
    case False
    then have "adjacent_ok (last list) nextStep"
      by (auto simp: adjacent_ok_def same_step_def)
    with assms have "react_inv (list @ [nextStep])"
      by (simp only: react_inv_snoc [OF ne])
    then show ?thesis by (simp only: upsertReactStep_push [OF ne False])
  qed
qed

text \<open>
  Handling a stream event keeps the invariant on both lists that it feeds: the global
  trace and the steps of the assistant message.
\<close>

lemma handleStreamEvent_inv:
  assumes "react_inv (reactTrace st)" and "react_inv (msg_reactSteps am)"
    and "handleStreamEvent event (am, st, w) = (am', st', w')"
  shows "react_inv (reactTrace st') \<and> react_inv (msg_reactSteps am')"
proof -
  have "reactTrace st' = reactTrace st \<or> (\<exists>step. reactTrace st' = upsertReactStep (reactTrace st) step)"
    using assms(3)
    by (auto simp: handleStreamEvent_def updateLastAssistantMessage_def Let_def split: if_splits)
  moreover have "msg_reactSteps am' = msg_reactSteps am \<or>
      (\<exists>step. msg_reactSteps am' = upsertReactStep (msg_reactSteps am) step)"
    using assms(3)
    by (auto simp: handleStreamEvent_def updateLastAssistantMessage_def Let_def split: if_splits)
  ultimately show ?thesis
    using assms(1,2) by (auto intro: upsertReactStep_inv)
qed

text \<open>
  C9. \<^verbatim>\<open>upsertReactStep\<close> keeps the invariant of a step list (two neighbours never have
  the same type, except two actions with different action names). When the incoming step
  has the type of the last entry and, for an action, its action name, the content of the
  last entry is overwritten in place: the length and every other entry stay, and so do the
  type and the action of the last entry.
\<close>

theorem upsertReactStep_keeps_invariant:
  "react_inv list \<Longrightarrow>
     react_inv (upsertReactStep list nextStep) \<and>
     (list \<noteq> [] \<and> step_type (last list) = step_type nextStep \<and>
      (step_type nextStep = ''action'' \<longrightarrow> step_action (last list) = step_action nextStep)
      \<longrightarrow> length (upsertReactStep list nextStep) = length list \<and>
          butlast (upsertReactStep list nextStep) = butlast list \<and>
          step_content (last (upsertReactStep list nextStep)) = step_content nextStep \<and>
          step_type (last (upsertReactStep list nextStep)) = step_type (last list) \<and>
          step_action (last (upsertReactStep list nextStep)) = step_action (last list))"
proof (intro conjI impI)
  assume "react_inv list"
  then show "react_inv (upsertReactStep list nextStep)" by (rule upsertReactStep_inv)
next
  assume h: "list \<noteq> [] \<and> step_type (last list) = step_type nextStep \<and>
      (step_type nextStep = ''action'' \<longrightarrow> step_action (last list) = step_action nextStep)"
  then have eq: "upsertReactStep list nextStep =
     butlast list @ [(last list)\<lparr>step_content := step_content nextStep\<rparr>]"
    by (intro upsertReactStep_update) (simp_all add: same_step_def)
  from h show "length (upsertReactStep list nextStep) = length list" by (simp add: eq)
  show "butlast (upsertReactStep list nextStep) = butlast list" by (simp add: eq)
  show "step_content (last (upsertReactStep list nextStep)) = step_content nextStep"
    by (simp add: eq)
  show "step_type (last (upsertReactStep list nextStep)) = step_type (last list)"
    by (simp add: eq)
  show "step_action (last (upsertReactStep list nextStep)) = step_action (last list)"
    by (simp add: eq)
qed

theorem upsertReactStep_keeps_invariant_witness:
  "react_inv [\<lparr>step_type = ''thought'', step_content = js ''a'', step_action = None\<rparr>,
              \<lparr>step_type = ''action'', step_content = js ''b'', step_action = Some ''create''\<rparr>] \<and>
   upsertReactStep
       [\<lparr>step_type = ''thought'', step_content = js ''a'', step_action = None\<rparr>,
        \<lparr>step_type = ''action'', step_content = js ''b'', step_action = Some ''create''\<rparr>]
       \<lparr>step_type = ''action'', step_content = js ''bc'', step_action = Some ''create''\<rparr>
    = [\<lparr>step_type = ''thought'', step_content = js ''a'', step_action = None\<rparr>,
       \<lparr>step_type = ''action'', step_content = js ''bc'', step_action = Some ''create''\<rparr>] \<and>
   react_inv (upsertReactStep
       [\<lparr>step_type = ''thought'', step_content = js ''a'', step_action = None\<rparr>,
        \<lparr>step_type = ''action'', step_content = js ''b'', step_action = Some ''create''\<rparr>]
       \<lparr>step_type = ''action'', step_content = js ''bc'', step_action = Some ''create''\<rparr>) \<and>
   length (upsertReactStep
       [\<lparr>step_type = ''thought'', step_content = js ''a'', step_action = None\<rparr>,
        \<lparr>step_type = ''action'', step_content = js ''b'', step_action = Some ''create''\<rparr>]
       \<lparr>step_type = ''action'', step_content = js ''bc'', step_action = Some ''create''\<rparr>) = 2"
  using upsertReactStep_keeps_invariant
    [of "[\<lparr>step_type = ''thought'', step_content = js ''a'', step_action = None\<rparr>,
          \<lparr>step_type = ''action'', step_content = js ''b'', step_action = Some ''create''\<rparr>]"
        "\<lparr>step_type = ''action'', step_content = js ''bc'', step_action = Some ''create''\<rparr>"]
  by (simp add: adjacent_ok_def upsertReactStep_def)

text \<open>
  The trimmed form of a string is empty exactly when every code unit of the string is a
  white space or a line terminator; the empty string is the least case.
\<close>

lemma trim_empty_iff: "trim s = [] \<longleftrightarrow> (\<forall>c \<in> set s. is_js_whitespace c)"
proof
  assume "trim s = []"
  then have all: "\<forall>c \<in> set (dropWhile is_js_whitespace s). is_js_whitespace c"
    by (simp add: trim_def trimEnd_def trimStart_def dropWhile_eq_Nil_conv)
  have "dropWhile is_js_whitespace s = []"
  proof (rule ccontr)
    assume ne: "dropWhile is_js_whitespace s \<noteq> []"
    then have "\<not> is_js_whitespace (hd (dropWhile is_js_whitespace s))"
      by (rule hd_dropWhile)
    moreover from ne have "hd (dropWhile is_js_whitespace s) \<in> set (dropWhile is_js_whitespace s)"
      by simp
    ultimately show False using all by blast
  qed
  then show "\<forall>c \<in> set s. is_js_whitespace c"
    by (simp add: dropWhile_eq_Nil_conv)
next
  assume "\<forall>c \<in> set s. is_js_whitespace c"
  then show "trim s = []"
    by (auto simp add: trim_def trimEnd_def trimStart_def dest: set_dropWhileD)
qed

text \<open>
  The guard is the only way out without an effect: a content whose trimmed form is not
  empty draws at least one identifier, for the hint, the user message or what follows.
\<close>

lemma handleStreamEvent_ticks:
  "ticks (snd (snd (handleStreamEvent e (am, st, w)))) = ticks w"
  by (simp add: handleStreamEvent_def Let_def)

lemma fold_handleStreamEvent_ticks:
  "ticks (snd (snd (fold handleStreamEvent es s))) = ticks (snd (snd s))"
proof (induction es arbitrary: s)
  case Nil
  show ?case by simp
next
  case (Cons e es)
  obtain am st w where s: "s = (am, st, w)" by (cases s) auto
  show ?case using Cons.IH [of "handleStreamEvent e s"] handleStreamEvent_ticks [of e am st w]
    by (simp add: s)
qed

lemma sendMessage_nonblank_acts:
  assumes "trim content \<noteq> []"
  shows "ticks w < ticks (snd (sendMessage server content (st, w)))"
proof (cases "selectedNodes w = []")
  case True
  with assms show ?thesis by (simp add: sendMessage_def tick_def)
next
  case False
  let ?st2 = "(st\<lparr>messages := messages st @
                  [(new_message w ''user'' content)
                     \<lparr>msg_selectedNodes := map summarize (selectedNodes w)\<rparr>]\<rparr>)
               \<lparr>isProcessing := True, error := None, reactTrace := [], streamingContent := []\<rparr>"
  let ?r = "processModificationRequest server content (selectedNodes w) (?st2, tick w)"
  let ?req = "\<lparr>req_prompt = content, req_selectedNodes = selectedNodes w,
               req_conversationHistory = drop (length (messages ?st2) - 10) (messages ?st2)\<rparr>"
  have r: "(\<exists>m st' w'. ?r = Inl (m, st', w') \<and> ticks w' = Suc (ticks w)) \<or>
           (\<exists>st' w'. ?r = Inr (st', w') \<and> ticks w' = Suc (Suc (ticks w)))"
  proof (cases "server ?req")
    case (FetchRejected m)
    then show ?thesis by (simp add: processModificationRequest_def Let_def tick_def)
  next
    case (NotOk detail status)
    then show ?thesis by (simp add: processModificationRequest_def Let_def tick_def)
  next
    case (Ok events)
    let ?w1 = "(tick w)\<lparr>requests := requests (tick w) @ [?req]\<rparr>"
    let ?am = "new_message ?w1 ''assistant'' []"
    let ?f = "fold handleStreamEvent events
                (?am, ?st2\<lparr>messages := messages ?st2 @ [?am]\<rparr>, tick ?w1)"
    obtain am st' w' where f: "?f = (am, st', w')" by (cases ?f) auto
    from fold_handleStreamEvent_ticks [of events "(?am, ?st2\<lparr>messages := messages ?st2 @ [?am]\<rparr>, tick ?w1)"] f
    have "ticks w' = Suc (Suc (ticks w))" by (simp add: tick_def)
    with Ok f show ?thesis by (simp add: processModificationRequest_def Let_def)
  qed
  from r show ?thesis
  proof
    assume "\<exists>m st' w'. ?r = Inl (m, st', w') \<and> ticks w' = Suc (ticks w)"
    then obtain m st' w' where "?r = Inl (m, st', w')" "ticks w' = Suc (ticks w)" by blast
    with assms False show ?thesis by (simp add: sendMessage_def Let_def tick_def)
  next
    assume "\<exists>st' w'. ?r = Inr (st', w') \<and> ticks w' = Suc (Suc (ticks w))"
    then obtain st' w' where "?r = Inr (st', w')" "ticks w' = Suc (Suc (ticks w))" by blast
    with assms False show ?thesis by (simp add: sendMessage_def Let_def)
  qed
qed

text \<open>
  C10. A content whose trimmed form is empty makes \<^verbatim>\<open>sendMessage\<close> return at once: the
  store (messages, isProcessing, error, reactTrace, streamingContent, appliedChanges and
  the rest) is the one before the call, and so is the world, whose list of requests shows
  that nothing was sent. The content ranges over all sequences of UTF-16 code units, and
  the trimmed form is the one of \<^verbatim>\<open>String.prototype.trim\<close>.
\<close>

theorem sendMessage_blank_no_effect:
  "trim content = [] \<Longrightarrow> sendMessage server content (st, w) = (st, w)"
  by (simp add: sendMessage_def)

theorem sendMessage_blank_no_effect_witness:
  "trim blank_content = [] \<and>
   sendMessage answering_server blank_content (busy_store, busy_world)
     = (busy_store, busy_world) \<and>
   length (messages busy_store) = 1 \<and> isProcessing busy_store \<and>
   error busy_store = Some (js ''earlier failure'') \<and> length (reactTrace busy_store) = 1 \<and>
   streamingContent busy_store = js ''Re'' \<and> appliedChanges busy_store = [''chg-1''] \<and>
   length (selectedNodes busy_world) = 1 \<and> length (requests busy_world) = 1 \<and>
   length (requests (snd (sendMessage answering_server (js ''rename'')
                            (busy_store, busy_world)))) = 2"
proof -
  have blank: "trim blank_content = []"
    by (simp add: trim_empty_iff blank_content_def is_js_whitespace_def is_white_space_def
        is_space_separator_def is_line_terminator_def)
  have sent: "length (requests (snd (sendMessage answering_server (js ''rename'')
                                       (busy_store, busy_world)))) = 2"
    by code_simp
  from sendMessage_blank_no_effect [OF blank] blank sent show ?thesis
    by (simp add: busy_store_def busy_world_def)
qed

section \<open>Properties of the phase branch\<close>

text \<open>
  C4, as the code has it. The structural kinds that \<^verbatim>\<open>determine_phase_sequence\<close> looks
  for are Aggregate and Field, the behavioural ones Command, Event and Policy. The result
  is phase A then phase B when both groups have a dirty kind, the one phase when only one
  group has, and no phase otherwise; a dirty set made of BoundedContext, Entity and
  ValueObject only, like the empty one, gives no phase.
\<close>

theorem determine_phase_sequence_table:
  "(dirty_labels \<inter> {''Aggregate'', ''Field''} \<noteq> {} \<and>
    dirty_labels \<inter> {''Command'', ''Event'', ''Policy''} \<noteq> {}
      \<longrightarrow> determine_phase_sequence dirty_labels = [''A'', ''B'']) \<and>
   (dirty_labels \<inter> {''Aggregate'', ''Field''} \<noteq> {} \<and>
    dirty_labels \<inter> {''Command'', ''Event'', ''Policy''} = {}
      \<longrightarrow> determine_phase_sequence dirty_labels = [''A'']) \<and>
   (dirty_labels \<inter> {''Aggregate'', ''Field''} = {} \<and>
    dirty_labels \<inter> {''Command'', ''Event'', ''Policy''} \<noteq> {}
      \<longrightarrow> determine_phase_sequence dirty_labels = [''B'']) \<and>
   (dirty_labels \<inter> {''Aggregate'', ''Field''} = {} \<and>
    dirty_labels \<inter> {''Command'', ''Event'', ''Policy''} = {}
      \<longrightarrow> determine_phase_sequence dirty_labels = []) \<and>
   (dirty_labels \<subseteq> {''BoundedContext'', ''Entity'', ''ValueObject''}
      \<longrightarrow> determine_phase_sequence dirty_labels = [])"
proof (intro conjI impI)
  assume sub: "dirty_labels \<subseteq> {''BoundedContext'', ''Entity'', ''ValueObject''}"
  have "l \<notin> dirty_labels"
    if "l \<in> {''Aggregate'', ''Field'', ''Command'', ''Event'', ''Policy''}" for l
  proof
    assume "l \<in> dirty_labels"
    with sub have "l \<in> {''BoundedContext'', ''Entity'', ''ValueObject''}" by (rule subsetD)
    with that show False by auto
  qed
  then show "determine_phase_sequence dirty_labels = []"
    by (simp add: determine_phase_sequence_def)
qed (auto simp: determine_phase_sequence_def)

theorem determine_phase_sequence_table_witness:
  "determine_phase_sequence {''Aggregate'', ''Command''} = [''A'', ''B''] \<and>
   determine_phase_sequence {''Field'', ''Entity''} = [''A''] \<and>
   determine_phase_sequence {''Event''} = [''B''] \<and>
   determine_phase_sequence {} = [] \<and>
   determine_phase_sequence {''BoundedContext'', ''ValueObject''} = []"
  using determine_phase_sequence_table [of "{''Aggregate'', ''Command''}"]
    determine_phase_sequence_table [of "{''Field'', ''Entity''}"]
    determine_phase_sequence_table [of "{''Event''}"]
    determine_phase_sequence_table [of "{}"]
    determine_phase_sequence_table [of "{''BoundedContext'', ''ValueObject''}"]
  by simp

text \<open>
  The decision table of the specification counts BoundedContext, Entity and ValueObject
  among the structural kinds: a dirty set with only a BoundedContext gives the structural
  phase there. The code gives no phase.
\<close>

theorem determine_phase_sequence_bounded_context:
  "scope_as_specified {''BoundedContext''} = [''A''] \<and>
   determine_phase_sequence {''BoundedContext''} = [] \<and>
   determine_phase_sequence {''Entity''} = [] \<and>
   determine_phase_sequence {''ValueObject''} = []"
  by (simp add: determine_phase_sequence_def scope_as_specified_def)

section \<open>Properties of the Impact Analyzer\<close>

lemma hop_endpoints:
  "hop e = Some (a, b) \<Longrightarrow> b \<in> {fst e, snd (snd e)}"
  by (cases e rule: hop.cases) auto

lemma finite_hop_targets: "finite (hop_targets g)"
proof -
  have "hop_targets g \<subseteq> fst ` set (edges g) \<union> (snd \<circ> snd) ` set (edges g)"
  proof
    fix b assume "b \<in> hop_targets g"
    then obtain e a where e: "e \<in> set (edges g)" and h: "hop e = Some (a, b)"
      by (auto simp: hop_targets_def)
    from hop_endpoints [OF h] e show "b \<in> fst ` set (edges g) \<union> (snd \<circ> snd) ` set (edges g)"
      by auto
  qed
  then show ?thesis by (rule finite_subset) simp
qed

lemma successors_iff:
  "m \<in> set (successors g n) \<longleftrightarrow> (\<exists>e \<in> set (edges g). hop e = Some (n, m))"
proof
  assume "m \<in> set (successors g n)"
  then obtain e where "e \<in> set (edges g)"
    and "(case hop e of Some (a, b) \<Rightarrow> (if a = n then Some b else None) | None \<Rightarrow> None) = Some m"
    by (auto simp: successors_def map_filter_def)
  then show "\<exists>e \<in> set (edges g). hop e = Some (n, m)"
    by (auto split: option.splits if_splits)
next
  assume "\<exists>e \<in> set (edges g). hop e = Some (n, m)"
  then obtain e where "e \<in> set (edges g)" and "hop e = Some (n, m)" by blast
  then show "m \<in> set (successors g n)"
    by (force simp: successors_def map_filter_def)
qed

lemma successors_hop_targets: "set (successors g n) \<subseteq> hop_targets g"
proof
  fix m assume "m \<in> set (successors g n)"
  then have "\<exists>e \<in> set (edges g). hop e = Some (n, m)" by (simp only: successors_iff)
  then show "m \<in> hop_targets g" unfolding hop_targets_def by blast
qed

text \<open>
  The rule of the traversal loop: it returns, and what holds of the queue and the visited
  list at the start and is kept by the two branches of the loop body holds of the result
  with the empty queue. The measure is twice the number of hop targets not yet visited
  plus the length of the queue.
\<close>

lemma bfs_rule:
  assumes "I queue visited"
    and skip: "\<And>n d rest v. I ((n, d) # rest) v \<Longrightarrow> maxHops \<le> d \<Longrightarrow> I rest v"
    and expand: "\<And>n d rest v. I ((n, d) # rest) v \<Longrightarrow> d < maxHops \<Longrightarrow>
       I (rest @ map (\<lambda>m. (m, Suc d)) (remdups (filter (\<lambda>m. m \<notin> set v) (successors g n))))
         (v @ remdups (filter (\<lambda>m. m \<notin> set v) (successors g n)))"
  shows "\<exists>r. bfs g maxHops queue visited = Some r \<and> I [] r"
  using assms(1)
proof (induction "2 * card (hop_targets g - set visited) + length queue"
    arbitrary: queue visited rule: less_induct)
  case less
  show ?case
  proof (cases queue)
    case Nil
    with less.prems show ?thesis by (simp add: bfs.simps)
  next
    case (Cons p rest)
    obtain n d where p: "p = (n, d)" by (cases p)
    show ?thesis
    proof (cases "maxHops \<le> d")
      case True
      have "I rest visited" using less.prems True skip unfolding Cons p by blast
      moreover have "2 * card (hop_targets g - set visited) + length rest
          < 2 * card (hop_targets g - set visited) + length queue"
        by (simp add: Cons)
      ultimately have "\<exists>r. bfs g maxHops rest visited = Some r \<and> I [] r"
        by (rule less.hyps [rotated])
      moreover have "bfs g maxHops queue visited = bfs g maxHops rest visited"
        using True by (subst bfs.simps) (simp add: Cons p)
      ultimately show ?thesis by simp
    next
      case False
      define new where "new = remdups (filter (\<lambda>m. m \<notin> set visited) (successors g n))"
      have inv: "I (rest @ map (\<lambda>m. (m, Suc d)) new) (visited @ new)"
        using less.prems False expand unfolding Cons p new_def by simp
      have sub: "set new \<subseteq> hop_targets g - set visited"
        using successors_hop_targets [of g n] by (auto simp: new_def)
      have "hop_targets g - set (visited @ new) = (hop_targets g - set visited) - set new"
        by auto
      then have "card (hop_targets g - set (visited @ new))
          = card (hop_targets g - set visited) - card (set new)"
        using sub finite_hop_targets [of g] by (simp add: card_Diff_subset)
      moreover have "card (set new) = length new"
        by (rule distinct_card) (simp add: new_def)
      moreover have "length new \<le> card (hop_targets g - set visited)"
        using sub finite_hop_targets [of g] \<open>card (set new) = length new\<close>
        by (metis card_mono finite_Diff)
      ultimately have "2 * card (hop_targets g - set (visited @ new))
            + length (rest @ map (\<lambda>m. (m, Suc d)) new)
          < 2 * card (hop_targets g - set visited) + length queue"
        by (simp add: Cons)
      with inv have "\<exists>r. bfs g maxHops (rest @ map (\<lambda>m. (m, Suc d)) new) (visited @ new) = Some r
          \<and> I [] r"
        by (rule less.hyps [rotated])
      moreover have "bfs g maxHops queue visited
          = bfs g maxHops (rest @ map (\<lambda>m. (m, Suc d)) new) (visited @ new)"
        using False by (subst bfs.simps) (simp add: Cons p new_def Let_def)
      ultimately show ?thesis by simp
    qed
  qed
qed

lemma bfs_distinct_extends:
  assumes "distinct visited"
  shows "\<exists>r. bfs g maxHops queue visited = Some r \<and> distinct r \<and> (\<exists>ys. r = visited @ ys)"
proof -
  have "\<exists>r. bfs g maxHops queue visited = Some r \<and>
      (\<lambda>q v. distinct v \<and> (\<exists>ys. v = visited @ ys)) [] r"
    by (rule bfs_rule) (use assms in auto)
  then show ?thesis by simp
qed


lemma affects_iff:
  "a \<in> set (affects g n) \<longleftrightarrow> (n, AFFECTS_AGGREGATE, a) \<in> set (edges g)"
  by (force simp: affects_def map_filter_def split: if_splits)

text \<open>
  The traversal visits exactly the nodes within \<open>maxHops\<close> hops of the roots. The proof
  follows the loop level by level with the invariant \<open>level_inv\<close>.
\<close>

lemma within_closed:
  assumes "\<forall>u \<in> within g rootIds d. set (successors g u) \<subseteq> within g rootIds d"
  shows "within g rootIds (d + k) = within g rootIds d"
proof (induction k)
  case 0
  then show ?case by simp
next
  case (Suc k)
  have "within g rootIds (d + Suc k)
      = within g rootIds (d + k) \<union> (\<Union>n \<in> within g rootIds (d + k). set (successors g n))"
    by (simp only: add_Suc_right within.simps)
  also have "\<dots> = within g rootIds d \<union> (\<Union>n \<in> within g rootIds d. set (successors g n))"
    by (simp only: Suc.IH)
  also have "\<dots> = within g rootIds d"
    using assms by blast
  finally show ?case .
qed

lemma sorted_map_const: "sorted (map (\<lambda>x. c) xs)"
  by (induction xs) auto

lemma level_invD:
  assumes "level_inv g rootIds maxHops d0 q visited"
  shows "d0 \<le> maxHops"
    and "\<And>m d. (m, d) \<in> set q \<Longrightarrow>
      (d = d0 \<or> d = Suc d0) \<and> d \<le> maxHops \<and> m \<in> set visited \<and> m \<in> within g rootIds d"
    and "sorted (map snd q)"
    and "within g rootIds d0 \<subseteq> set visited"
    and "\<And>u. u \<in> within g rootIds d0 \<Longrightarrow> d0 < maxHops \<Longrightarrow>
        (u, d0) \<in> set q \<or> set (successors g u) \<subseteq> set visited"
    and "\<And>m. (m, Suc d0) \<in> set q \<Longrightarrow> m \<notin> within g rootIds d0"
    and "set visited \<subseteq> within g rootIds d0 \<union> {m. (m, Suc d0) \<in> set q}"
  using assms unfolding level_inv_def by blast+

lemma level_invI:
  assumes "d0 \<le> maxHops"
    and "\<And>m d. (m, d) \<in> set q \<Longrightarrow>
      (d = d0 \<or> d = Suc d0) \<and> d \<le> maxHops \<and> m \<in> set visited \<and> m \<in> within g rootIds d"
    and "sorted (map snd q)"
    and "within g rootIds d0 \<subseteq> set visited"
    and "\<And>u. u \<in> within g rootIds d0 \<Longrightarrow> d0 < maxHops \<Longrightarrow>
        (u, d0) \<in> set q \<or> set (successors g u) \<subseteq> set visited"
    and "\<And>m. (m, Suc d0) \<in> set q \<Longrightarrow> m \<notin> within g rootIds d0"
    and "set visited \<subseteq> within g rootIds d0 \<union> {m. (m, Suc d0) \<in> set q}"
  shows "level_inv g rootIds maxHops d0 q visited"
  unfolding level_inv_def using assms by blast

lemma level_inv_init:
  "level_inv g rootIds maxHops 0 (map (\<lambda>r. (r, 0)) (remdups rootIds)) (remdups rootIds)"
proof (rule level_invI)
  show "sorted (map snd (map (\<lambda>r. (r, 0::nat)) (remdups rootIds)))"
    by (simp add: comp_def sorted_map_const)
qed auto

text \<open>When the head of the queue is of the next level, no entry of this level is left.\<close>

lemma level_inv_advance:
  assumes inv: "level_inv g rootIds maxHops d0 ((n, Suc d0) # rest) visited"
  shows "level_inv g rootIds maxHops (Suc d0) ((n, Suc d0) # rest) visited"
proof -
  let ?q = "(n, Suc d0) # rest"
  let ?W = "within g rootIds"
  note ent = level_invD(2) [OF inv] and srt = level_invD(3) [OF inv]
    and vis = level_invD(4) [OF inv] and exp = level_invD(5) [OF inv]
    and cov = level_invD(7) [OF inv]
  have lvl: "d = Suc d0" if "(m, d) \<in> set ?q" for m d
  proof -
    from that have "d = Suc d0 \<or> d \<in> set (map snd rest)" by force
    with srt have "Suc d0 \<le> d" by auto
    with ent [OF that] show ?thesis by auto
  qed
  have bound: "Suc d0 \<le> maxHops" using ent [of n "Suc d0"] by simp
  have closed: "set (successors g u) \<subseteq> set visited" if "u \<in> ?W d0" for u
  proof -
    from bound have "d0 < maxHops" by simp
    from exp [OF that this] show ?thesis
    proof
      assume "(u, d0) \<in> set ?q"
      from lvl [OF this] show ?thesis by simp
    qed
  qed
  have vis': "?W (Suc d0) \<subseteq> set visited"
  proof
    fix x assume "x \<in> ?W (Suc d0)"
    then have "x \<in> ?W d0 \<or> (\<exists>u \<in> ?W d0. x \<in> set (successors g u))" by simp
    then show "x \<in> set visited" using vis closed by blast
  qed
  show ?thesis
  proof (rule level_invI)
    show "Suc d0 \<le> maxHops" by (rule bound)
    show "sorted (map snd ?q)" by (rule srt)
    show "?W (Suc d0) \<subseteq> set visited" by (rule vis')
  next
    fix m d assume "(m, d) \<in> set ?q"
    from lvl [OF this] ent [OF this]
    show "(d = Suc d0 \<or> d = Suc (Suc d0)) \<and> d \<le> maxHops \<and> m \<in> set visited \<and> m \<in> ?W d"
      by blast
  next
    fix u assume u: "u \<in> ?W (Suc d0)"
    show "(u, Suc d0) \<in> set ?q \<or> set (successors g u) \<subseteq> set visited"
    proof (cases "u \<in> ?W d0")
      case True
      then show ?thesis using closed by blast
    next
      case False
      from u vis' have "u \<in> set visited" by blast
      with cov False show ?thesis by blast
    qed
  next
    fix m assume "(m, Suc (Suc d0)) \<in> set ?q"
    from lvl [OF this] show "m \<notin> ?W (Suc d0)" by simp
  next
    show "set visited \<subseteq> ?W (Suc d0) \<union> {m. (m, Suc (Suc d0)) \<in> set ?q}"
    proof
      fix x assume "x \<in> set visited"
      with cov have "x \<in> ?W d0 \<or> (x, Suc d0) \<in> set ?q" by blast
      then show "x \<in> ?W (Suc d0) \<union> {m. (m, Suc (Suc d0)) \<in> set ?q}"
      proof
        assume "x \<in> ?W d0"
        then show ?thesis by simp
      next
        assume "(x, Suc d0) \<in> set ?q"
        from ent [OF this] show ?thesis by blast
      qed
    qed
  qed
qed

text \<open>The head of the queue can be taken to be of the level the loop works on.\<close>

lemma level_inv_head:
  assumes "level_inv g rootIds maxHops d0 ((n, d) # rest) visited"
  shows "level_inv g rootIds maxHops d ((n, d) # rest) visited"
proof -
  from level_invD(2) [OF assms, of n d] have "d = d0 \<or> d = Suc d0" by simp
  then show ?thesis
  proof
    assume "d = d0"
    with assms show ?thesis by simp
  next
    assume "d = Suc d0"
    with assms show ?thesis by (simp add: level_inv_advance)
  qed
qed

lemma level_inv_skip:
  assumes inv: "level_inv g rootIds maxHops d ((n, d) # rest) visited" and full: "maxHops \<le> d"
  shows "level_inv g rootIds maxHops d rest visited"
proof (rule level_invI)
  note ent = level_invD(2) [OF inv] and cov = level_invD(7) [OF inv]
  show "d \<le> maxHops" by (rule level_invD(1) [OF inv])
  show "sorted (map snd rest)" using level_invD(3) [OF inv] by simp
  show "within g rootIds d \<subseteq> set visited" by (rule level_invD(4) [OF inv])
  show "(m, d') \<in> set rest \<Longrightarrow>
      (d' = d \<or> d' = Suc d) \<and> d' \<le> maxHops \<and> m \<in> set visited \<and> m \<in> within g rootIds d'"
    for m d'
    using ent [of m d'] by simp
  show "u \<in> within g rootIds d \<Longrightarrow> d < maxHops \<Longrightarrow>
      (u, d) \<in> set rest \<or> set (successors g u) \<subseteq> set visited" for u
    using full by simp
  show "(m, Suc d) \<in> set rest \<Longrightarrow> m \<notin> within g rootIds d" for m
    using level_invD(6) [OF inv, of m] by simp
  show "set visited \<subseteq> within g rootIds d \<union> {m. (m, Suc d) \<in> set rest}"
    using cov by auto
qed

lemma level_inv_expand:
  assumes inv: "level_inv g rootIds maxHops d ((n, d) # rest) visited" and below: "d < maxHops"
  defines "new \<equiv> remdups (filter (\<lambda>m. m \<notin> set visited) (successors g n))"
  shows "level_inv g rootIds maxHops d (rest @ map (\<lambda>m. (m, Suc d)) new) (visited @ new)"
proof (rule level_invI)
  let ?W = "within g rootIds"
  let ?q' = "rest @ map (\<lambda>m. (m, Suc d)) new"
  note ent = level_invD(2) [OF inv] and srt = level_invD(3) [OF inv]
    and vis = level_invD(4) [OF inv] and exp = level_invD(5) [OF inv]
    and nxt = level_invD(6) [OF inv] and cov = level_invD(7) [OF inv]
  have n: "n \<in> ?W d" using ent [of n d] by simp
  have new_iff: "m \<in> set new \<longleftrightarrow> m \<in> set (successors g n) \<and> m \<notin> set visited" for m
    by (simp add: new_def)
  have mem: "(m, d') \<in> set ?q' \<longleftrightarrow> (m, d') \<in> set rest \<or> (d' = Suc d \<and> m \<in> set new)" for m d'
    by auto
  show "d \<le> maxHops" by (rule level_invD(1) [OF inv])
  show "?W d \<subseteq> set (visited @ new)" using vis by auto
  show "sorted (map snd ?q')"
  proof -
    have "\<forall>x \<in> set (map snd rest). x \<le> Suc d"
      using ent by fastforce
    moreover have "sorted (map snd rest)" using srt by simp
    moreover have "sorted (map (snd \<circ> (\<lambda>m. (m, Suc d))) new)"
      by (simp add: comp_def sorted_map_const)
    ultimately show ?thesis
      by (simp add: sorted_append)
  qed
  show "(d' = d \<or> d' = Suc d) \<and> d' \<le> maxHops \<and> m \<in> set (visited @ new) \<and> m \<in> ?W d'"
    if "(m, d') \<in> set ?q'" for m d'
  proof -
    from that have "(m, d') \<in> set rest \<or> (d' = Suc d \<and> m \<in> set new)" by (simp only: mem)
    then show ?thesis
    proof
      assume "(m, d') \<in> set rest"
      then show ?thesis using ent [of m d'] by simp
    next
      assume a: "d' = Suc d \<and> m \<in> set new"
      then have "m \<in> set (successors g n)" by (simp add: new_iff)
      with n have "m \<in> ?W (Suc d)" by auto
      with a below show ?thesis by simp
    qed
  qed
  show "(u, d) \<in> set ?q' \<or> set (successors g u) \<subseteq> set (visited @ new)"
    if "u \<in> ?W d" and "d < maxHops" for u
  proof -
    from exp [OF that] have "u = n \<or> (u, d) \<in> set rest \<or> set (successors g u) \<subseteq> set visited"
      by auto
    then show ?thesis
    proof (elim disjE)
      assume "u = n"
      then have "set (successors g u) \<subseteq> set (visited @ new)" by (auto simp: new_iff)
      then show ?thesis ..
    next
      assume "(u, d) \<in> set rest"
      then show ?thesis by simp
    next
      assume "set (successors g u) \<subseteq> set visited"
      then show ?thesis by auto
    qed
  qed
  show "m \<notin> ?W d" if "(m, Suc d) \<in> set ?q'" for m
  proof -
    from that have "(m, Suc d) \<in> set rest \<or> m \<in> set new"
      using mem [of m "Suc d"] by blast
    then show ?thesis
    proof
      assume "(m, Suc d) \<in> set rest"
      then show ?thesis using nxt [of m] by simp
    next
      assume "m \<in> set new"
      then have "m \<notin> set visited" by (simp add: new_iff)
      with vis show ?thesis by blast
    qed
  qed
  show "set (visited @ new) \<subseteq> ?W d \<union> {m. (m, Suc d) \<in> set ?q'}"
  proof
    fix x assume "x \<in> set (visited @ new)"
    then have "x \<in> set visited \<or> x \<in> set new" by simp
    then show "x \<in> ?W d \<union> {m. (m, Suc d) \<in> set ?q'}"
    proof
      assume "x \<in> set visited"
      with cov have "x \<in> ?W d \<or> (x, Suc d) \<in> set ((n, d) # rest)" by blast
      then show ?thesis by auto
    next
      assume "x \<in> set new"
      then show ?thesis using mem [of x "Suc d"] by blast
    qed
  qed
qed

lemma level_inv_final:
  assumes inv: "level_inv g rootIds maxHops d0 [] visited"
  shows "set visited = within g rootIds maxHops"
proof -
  have eq: "set visited = within g rootIds d0"
    using level_invD(4) [OF inv] level_invD(7) [OF inv] by auto
  show ?thesis
  proof (cases "d0 < maxHops")
    case False
    with level_invD(1) [OF inv] have "d0 = maxHops" by simp
    with eq show ?thesis by simp
  next
    case True
    have "\<forall>u \<in> within g rootIds d0. set (successors g u) \<subseteq> within g rootIds d0"
      using level_invD(5) [OF inv _ True] eq by auto
    then have "within g rootIds (d0 + (maxHops - d0)) = within g rootIds d0"
      by (rule within_closed)
    with True eq show ?thesis by simp
  qed
qed

lemma bfs_exact:
  "\<exists>r. bfs g maxHops (map (\<lambda>r. (r, 0)) (remdups rootIds)) (remdups rootIds) = Some r \<and>
       set r = within g rootIds maxHops"
proof -
  let ?I = "\<lambda>q v. \<exists>d0. level_inv g rootIds maxHops d0 q v"
  have "\<exists>r. bfs g maxHops (map (\<lambda>r. (r, 0)) (remdups rootIds)) (remdups rootIds) = Some r \<and>
      ?I [] r"
  proof (rule bfs_rule)
    show "?I (map (\<lambda>r. (r, 0)) (remdups rootIds)) (remdups rootIds)"
      using level_inv_init by blast
  next
    fix n d rest v
    assume "?I ((n, d) # rest) v" and "maxHops \<le> d"
    then show "?I rest v"
      using level_inv_head level_inv_skip by blast
  next
    fix n d rest v
    assume "?I ((n, d) # rest) v" and "d < maxHops"
    then show "?I (rest @ map (\<lambda>m. (m, Suc d)) (remdups (filter (\<lambda>m. m \<notin> set v) (successors g n))))
         (v @ remdups (filter (\<lambda>m. m \<notin> set v) (successors g n)))"
      using level_inv_head level_inv_expand by blast
  qed
  then show ?thesis using level_inv_final by blast
qed

lemma findImpact_visited:
  "\<exists>visited. bfs g maxHops (map (\<lambda>r. (r, 0)) (remdups rootIds)) (remdups rootIds) = Some visited \<and>
     distinct visited \<and> (\<exists>ys. visited = remdups rootIds @ ys) \<and>
     set visited = within g rootIds maxHops \<and>
     findImpact g rootIds maxHops =
       Some \<lparr>impacted =
               (\<lambda>k. sort (filter (\<lambda>n. kind_of g n = Some k) (drop (length (remdups rootIds)) visited))),
             affected_aggregates =
               sort (remdups (concat (map (affects g)
                 (filter (\<lambda>n. kind_of g n = Some Event) visited))))\<rparr>"
proof -
  let ?roots = "remdups rootIds"
  let ?q = "map (\<lambda>r. (r, 0)) ?roots"
  obtain r where r: "bfs g maxHops ?q ?roots = Some r" and d: "distinct r"
    and ext: "\<exists>ys. r = ?roots @ ys"
    using bfs_distinct_extends [of ?roots g maxHops ?q] by auto
  from bfs_exact [of g maxHops rootIds] r have "set r = within g rootIds maxHops" by simp
  with r d ext show ?thesis by (simp add: findImpact_def Let_def)
qed

text \<open>
  C1. For every graph, every list of root identifiers and every hop bound,
  \<^verbatim>\<open>findImpact\<close> returns (the traversal loop, defined without a termination argument,
  yields a result whatever cycles the event chain has), and each of the returned lists,
  one per node kind and the list of affected aggregates, is sorted and holds no identifier
  twice.
\<close>

theorem findImpact_terminates_without_duplicates:
  "\<exists>r. findImpact g rootIds maxHops = Some r \<and>
       (\<forall>k. distinct (impacted r k) \<and> sorted (impacted r k)) \<and>
       distinct (affected_aggregates r) \<and> sorted (affected_aggregates r)"
proof -
  obtain visited where "distinct visited"
    and "findImpact g rootIds maxHops =
       Some \<lparr>impacted =
               (\<lambda>k. sort (filter (\<lambda>n. kind_of g n = Some k) (drop (length (remdups rootIds)) visited))),
             affected_aggregates =
               sort (remdups (concat (map (affects g)
                 (filter (\<lambda>n. kind_of g n = Some Event) visited))))\<rparr>"
    using findImpact_visited [of g maxHops rootIds] by blast
  then show ?thesis by simp
qed

text \<open>
  The cyclic chain, with a hop bound below and above the length of the cycle: the
  traversal from the command returns the event and the policy once each.
\<close>

theorem findImpact_terminates_without_duplicates_witness:
  "(\<exists>r. findImpact cycle_graph [''CMD_X''] 2 = Some r \<and>
       (\<forall>k. distinct (impacted r k) \<and> sorted (impacted r k)) \<and>
       distinct (affected_aggregates r) \<and> sorted (affected_aggregates r)) \<and>
   (\<exists>r. findImpact cycle_graph [''CMD_X''] 7 = Some r \<and>
       (\<forall>k. distinct (impacted r k) \<and> sorted (impacted r k)) \<and>
       distinct (affected_aggregates r) \<and> sorted (affected_aggregates r)) \<and>
   report (findImpact cycle_graph [''CMD_X''] 2) = Some ([], [], [], [''EVT_X''], [''POL_X''], [''AGG_X'']) \<and>
   report (findImpact cycle_graph [''CMD_X''] 7) = Some ([], [], [], [''EVT_X''], [''POL_X''], [''AGG_X''])"
proof -
  have "report (findImpact cycle_graph [''CMD_X''] 2)
      = Some ([], [], [], [''EVT_X''], [''POL_X''], [''AGG_X''])"
    by code_simp
  moreover have "report (findImpact cycle_graph [''CMD_X''] 7)
      = Some ([], [], [], [''EVT_X''], [''POL_X''], [''AGG_X''])"
    by code_simp
  ultimately show ?thesis
    using findImpact_terminates_without_duplicates [of cycle_graph "[''CMD_X'']" 2]
      findImpact_terminates_without_duplicates [of cycle_graph "[''CMD_X'']" 7]
    by blast
qed

text \<open>
  C3. Whatever the hop bound: when an Event within \<open>maxHops\<close> hops of the roots (the
  Events the traversal reaches, one at the full depth \<open>maxHops\<close> included, where the
  budget is exhausted and the Event is not expanded) has an \<^verbatim>\<open>affects\<close> edge, the target
  of the edge is in \<open>affected_aggregates\<close>. This leg is the only step beyond the bound:
  the impacted nodes of a kind are exactly the nodes of that kind within \<open>maxHops\<close> hops,
  the roots apart, through whatever class of relationship, and the affected aggregates
  are exactly the targets of the \<^verbatim>\<open>affects\<close> edges of the Events within \<open>maxHops\<close> hops.
\<close>

theorem findImpact_affects_leg:
  "\<exists>r. findImpact g rootIds maxHops = Some r \<and>
     (\<forall>e a. e \<in> within g rootIds maxHops \<and> kind_of g e = Some Event \<and>
            (e, AFFECTS_AGGREGATE, a) \<in> set (edges g)
        \<longrightarrow> a \<in> set (affected_aggregates r)) \<and>
     (\<forall>k. set (impacted r k)
        = {n \<in> within g rootIds maxHops. n \<notin> set rootIds \<and> kind_of g n = Some k}) \<and>
     set (affected_aggregates r)
        = {a. \<exists>e \<in> within g rootIds maxHops.
                kind_of g e = Some Event \<and> (e, AFFECTS_AGGREGATE, a) \<in> set (edges g)}"
proof -
  let ?roots = "remdups rootIds"
  obtain visited ys where ext: "visited = ?roots @ ys" and dist: "distinct visited"
    and exact: "set visited = within g rootIds maxHops"
    and res: "findImpact g rootIds maxHops =
       Some \<lparr>impacted =
               (\<lambda>k. sort (filter (\<lambda>n. kind_of g n = Some k) (drop (length ?roots) visited))),
             affected_aggregates =
               sort (remdups (concat (map (affects g)
                 (filter (\<lambda>n. kind_of g n = Some Event) visited))))\<rparr>"
    using findImpact_visited [of g maxHops rootIds] by blast
  let ?r = "\<lparr>impacted =
               (\<lambda>k. sort (filter (\<lambda>n. kind_of g n = Some k) (drop (length ?roots) visited))),
             affected_aggregates =
               sort (remdups (concat (map (affects g)
                 (filter (\<lambda>n. kind_of g n = Some Event) visited))))\<rparr>"
  have "drop (length ?roots) visited = ys" by (simp add: ext)
  moreover from dist have "set ys = set visited - set rootIds" by (auto simp: ext)
  ultimately have imp: "set (impacted ?r k)
      = {n \<in> within g rootIds maxHops. n \<notin> set rootIds \<and> kind_of g n = Some k}" for k
    by (auto simp: exact)
  have aff: "set (affected_aggregates ?r)
      = {a. \<exists>e \<in> within g rootIds maxHops.
              kind_of g e = Some Event \<and> (e, AFFECTS_AGGREGATE, a) \<in> set (edges g)}"
    by (auto simp: affects_iff exact)
  have leg: "a \<in> set (affected_aggregates ?r)"
    if "e \<in> within g rootIds maxHops \<and> kind_of g e = Some Event \<and>
        (e, AFFECTS_AGGREGATE, a) \<in> set (edges g)" for e a
    using that by (subst aff) blast
  from res leg imp aff show ?thesis by blast
qed

text \<open>
  On the test dataset with a bound of two hops the Event is reached with the budget
  exhausted (it is within two hops and not within one), and its affected aggregate is
  reported, in \<open>affected_aggregates\<close> and not among the impacted Aggregates.
\<close>

theorem findImpact_affects_leg_witness:
  "\<exists>r. findImpact test_graph [''US_001''] 2 = Some r \<and>
     ''EVT_ORDER_PLACED'' \<in> within test_graph [''US_001''] 2 \<and>
     ''EVT_ORDER_PLACED'' \<notin> within test_graph [''US_001''] 1 \<and>
     ''AGG_STOCK'' \<in> set (affected_aggregates r) \<and>
     ''AGG_STOCK'' \<notin> set (impacted r Aggregate)"
proof -
  obtain r where r: "findImpact test_graph [''US_001''] 2 = Some r"
    and leg: "\<forall>e a. e \<in> within test_graph [''US_001''] 2 \<and>
            kind_of test_graph e = Some Event \<and>
            (e, AFFECTS_AGGREGATE, a) \<in> set (edges test_graph)
        \<longrightarrow> a \<in> set (affected_aggregates r)"
    using findImpact_affects_leg [of test_graph "[''US_001'']" 2] by blast
  have "report (findImpact test_graph [''US_001''] 2)
      = Some ([''AGG_ORDER''], [''F_ORDER_AMOUNT'', ''F_ORDER_ID''], [''CMD_PLACE_ORDER''],
              [''EVT_ORDER_PLACED''], [], [''AGG_STOCK''])"
    by code_simp
  with r have ag: "impacted r Aggregate = [''AGG_ORDER'']"
    by (simp add: report_def)
  have k: "kind_of test_graph ''EVT_ORDER_PLACED'' = Some Event"
    by code_simp
  have e: "(''EVT_ORDER_PLACED'', AFFECTS_AGGREGATE, ''AGG_STOCK'') \<in> set (edges test_graph)"
    by (simp add: test_graph_def test_edges_def)
  have near: "''EVT_ORDER_PLACED'' \<in> within test_graph [''US_001''] 2"
    by code_simp
  have far: "''EVT_ORDER_PLACED'' \<notin> within test_graph [''US_001''] 1"
    by code_simp
  from leg near k e have "''AGG_STOCK'' \<in> set (affected_aggregates r)"
    by blast
  with r ag near far show ?thesis by simp
qed

section \<open>Properties of the upsert statements\<close>

lemma map_add_twice: "(m ++ a) ++ a = m ++ (a :: 'a \<rightharpoonup> 'b)"
  by (rule ext) (simp add: map_add_def split: option.splits)

lemma merge_set_twice: "merge_set k i attrs (merge_set k i attrs g) = merge_set k i attrs g"
  by (simp add: merge_set_def map_add_twice)

lemma match_merge_twice: "match_merge a r b (match_merge a r b g) = match_merge a r b g"
  by (simp add: match_merge_def)

lemma merge_set_match_merge:
  "merge_set k i attrs (match_merge a r b (merge_set k i attrs g))
     = match_merge a r b (merge_set k i attrs g)"
proof -
  have "merge_set k i attrs (match_merge a r b g') = match_merge a r b (merge_set k i attrs g')"
    if "nodes g' (k, i) \<noteq> None" for g'
    using that by (auto simp: merge_set_def match_merge_def)
  moreover have "nodes (merge_set k i attrs g) (k, i) \<noteq> None"
    by (simp add: merge_set_def)
  ultimately show ?thesis by (simp add: merge_set_twice)
qed

lemma upsert_twice: "upsert k p (upsert k p g) = upsert k p g"
proof (cases "p_parent p")
  case None
  then show ?thesis by (simp add: upsert_def merge_set_twice)
next
  case (Some par)
  obtain pk pid r where "par = (pk, pid, r)" by (cases par)
  with Some show ?thesis
    by (simp add: upsert_def merge_set_match_merge match_merge_twice)
qed

lemma upsert_changes: "changes (upsert k p g) = changes g"
  by (simp add: upsert_def merge_set_def match_merge_def Let_def split: option.splits)

lemma upsert_dirty:
  assumes "p_attrs p ''dirty'' = None"
  shows "list_dirty ko (upsert k p g) = list_dirty ko g"
proof -
  have n: "nodes (upsert k p g)
      = (nodes g)((k, p_id p) \<mapsto>
          (case nodes g (k, p_id p) of None \<Rightarrow> Map.empty | Some old \<Rightarrow> old) ++ p_attrs p)"
    by (simp add: upsert_def merge_set_def match_merge_def Let_def split: option.splits)
  have "(\<exists>ps. nodes (upsert k p g) key = Some ps \<and> ps ''dirty'' = Some (PBool True))
      \<longleftrightarrow> (\<exists>ps. nodes g key = Some ps \<and> ps ''dirty'' = Some (PBool True))" for key
    using assms by (auto simp: n map_add_def split: option.splits)
  then show ?thesis by (simp add: list_dirty_def)
qed

text \<open>
  C5. A second \<open>upsert\<close> with the same kind and payload returns the graph of the first:
  the merge writes what is there already. The second call therefore adds no Change
  record, leaves the fingerprint stored on the node as it is and leaves the set of dirty
  nodes as it is. Nor does the first call write a Change record, or change the set of
  dirty nodes unless the payload itself sets the property \<^verbatim>\<open>dirty\<close>.
\<close>

theorem upsert_idempotent:
  "upsert k p (upsert k p g) = upsert k p g \<and>
   changes (upsert k p (upsert k p g)) = changes (upsert k p g) \<and>
   stored_hash (upsert k p (upsert k p g)) k (p_id p) = stored_hash (upsert k p g) k (p_id p) \<and>
   list_dirty ko (upsert k p (upsert k p g)) = list_dirty ko (upsert k p g) \<and>
   changes (upsert k p g) = changes g \<and>
   (p_attrs p ''dirty'' = None \<longrightarrow> list_dirty ko (upsert k p g) = list_dirty ko g)"
  by (simp add: upsert_twice upsert_changes upsert_dirty)

text \<open>
  The field \<^verbatim>\<open>F_ORDER_ID\<close> of the test data, upserted again with a new property: the
  first call adds the property to the node, the second changes nothing. Its parent edge is
  there already; a payload that names a missing parent creates the node and no edge.
\<close>

theorem upsert_idempotent_witness:
  "map_option (\<lambda>ps. (ps ''name'', ps ''type''))
     (nodes (upsert Field_kind
        \<lparr>p_id = ''F_ORDER_ID'', p_attrs = [''type'' \<mapsto> PStr ''UUID''],
         p_parent = Some (Aggregate, ''AGG_ORDER'', HAS_FIELD)\<rparr> test_graph)
        (Field_kind, ''F_ORDER_ID''))
     = Some (Some (PStr ''orderId''), Some (PStr ''UUID'')) \<and>
   edges (upsert Field_kind
        \<lparr>p_id = ''F_ORDER_ID'', p_attrs = [''type'' \<mapsto> PStr ''UUID''],
         p_parent = Some (Aggregate, ''AGG_ORDER'', HAS_FIELD)\<rparr> test_graph) = test_edges \<and>
   upsert Field_kind
        \<lparr>p_id = ''F_ORDER_ID'', p_attrs = [''type'' \<mapsto> PStr ''UUID''],
         p_parent = Some (Aggregate, ''AGG_ORDER'', HAS_FIELD)\<rparr>
     (upsert Field_kind
        \<lparr>p_id = ''F_ORDER_ID'', p_attrs = [''type'' \<mapsto> PStr ''UUID''],
         p_parent = Some (Aggregate, ''AGG_ORDER'', HAS_FIELD)\<rparr> test_graph)
     = upsert Field_kind
        \<lparr>p_id = ''F_ORDER_ID'', p_attrs = [''type'' \<mapsto> PStr ''UUID''],
         p_parent = Some (Aggregate, ''AGG_ORDER'', HAS_FIELD)\<rparr> test_graph \<and>
   list_dirty None (upsert Field_kind
        \<lparr>p_id = ''F_ORDER_ID'', p_attrs = [''type'' \<mapsto> PStr ''UUID''],
         p_parent = Some (Aggregate, ''AGG_ORDER'', HAS_FIELD)\<rparr> test_graph)
     = list_dirty None test_graph \<and>
   edges (upsert Field_kind
        \<lparr>p_id = ''F_QTY'', p_attrs = named ''quantity'',
         p_parent = Some (Aggregate, ''AGG_NONE'', HAS_FIELD)\<rparr> test_graph) = test_edges"
proof -
  let ?p = "\<lparr>p_id = ''F_ORDER_ID'', p_attrs = [''type'' \<mapsto> PStr ''UUID''],
         p_parent = Some (Aggregate, ''AGG_ORDER'', HAS_FIELD)\<rparr>"
  have a: "map_option (\<lambda>ps. (ps ''name'', ps ''type''))
      (nodes (upsert Field_kind ?p test_graph) (Field_kind, ''F_ORDER_ID''))
     = Some (Some (PStr ''orderId''), Some (PStr ''UUID''))"
    by (simp add: upsert_def merge_set_def match_merge_def test_graph_def test_nodes_def
        test_edges_def named_def)
  have b: "edges (upsert Field_kind ?p test_graph) = test_edges"
    by (simp add: upsert_def merge_set_def match_merge_def test_graph_def test_nodes_def
        test_edges_def)
  have c: "edges (upsert Field_kind
        \<lparr>p_id = ''F_QTY'', p_attrs = named ''quantity'',
         p_parent = Some (Aggregate, ''AGG_NONE'', HAS_FIELD)\<rparr> test_graph) = test_edges"
    by (simp add: upsert_def merge_set_def match_merge_def test_graph_def test_nodes_def)
  have d: "p_attrs ?p ''dirty'' = None" by simp
  from upsert_idempotent [of Field_kind ?p test_graph None] a b c d show ?thesis by simp
qed

section \<open>Properties of the Change Detector\<close>

lemma latest_change_append:
  "ch_label c = k \<Longrightarrow> ch_node_id c = i \<Longrightarrow>
   latest_change (g\<lparr>changes := changes g @ [c]\<rparr>) k i = Some c"
  by (simp add: latest_change_def)

text \<open>
  C6. When the fingerprint recorded last for the node (the \<^verbatim>\<open>after_hash\<close> of its latest
  Change, or without one the baseline on the node) is the fingerprint of the payload,
  \<open>detect\<close> answers \<open>False\<close> and returns the graph as it was. When none is recorded or it
  differs, \<open>detect\<close> answers \<open>True\<close> and the graph has one more Change record, for this
  node, whose \<^verbatim>\<open>before_hash\<close> is the fingerprint recorded before and whose
  \<^verbatim>\<open>after_hash\<close> is the fingerprint of the payload; from then on that fingerprint is the
  recorded one.
\<close>

theorem detect_contract:
  "(recorded_fingerprint g k i = Some (fingerprint p)
      \<longrightarrow> detect fingerprint reason now k i p g = (False, g)) \<and>
   (recorded_fingerprint g k i \<noteq> Some (fingerprint p)
      \<longrightarrow> (\<exists>c. detect fingerprint reason now k i p g = (True, g\<lparr>changes := changes g @ [c]\<rparr>) \<and>
               ch_label c = k \<and> ch_node_id c = i \<and>
               ch_before_hash c = recorded_fingerprint g k i \<and>
               ch_after_hash c = fingerprint p) \<and>
          recorded_fingerprint (snd (detect fingerprint reason now k i p g)) k i
            = Some (fingerprint p))"
proof (intro conjI impI)
  assume "recorded_fingerprint g k i = Some (fingerprint p)"
  then show "detect fingerprint reason now k i p g = (False, g)"
    by (simp add: detect_def)
next
  assume diff: "recorded_fingerprint g k i \<noteq> Some (fingerprint p)"
  let ?c = "\<lparr>ch_id = ''CHG_'' @ string_of_nat (length (changes g)), ch_label = k,
             ch_node_id = i, ch_before_hash = recorded_fingerprint g k i,
             ch_after_hash = fingerprint p, ch_reason = reason, ch_at = now\<rparr>"
  from diff have d: "detect fingerprint reason now k i p g = (True, g\<lparr>changes := changes g @ [?c]\<rparr>)"
    by (simp add: detect_def Let_def)
  then show "\<exists>c. detect fingerprint reason now k i p g = (True, g\<lparr>changes := changes g @ [c]\<rparr>) \<and>
               ch_label c = k \<and> ch_node_id c = i \<and>
               ch_before_hash c = recorded_fingerprint g k i \<and>
               ch_after_hash c = fingerprint p"
    by (intro exI [of _ ?c]) simp
  have "latest_change (g\<lparr>changes := changes g @ [?c]\<rparr>) k i = Some ?c"
    by (rule latest_change_append) simp_all
  then show "recorded_fingerprint (snd (detect fingerprint reason now k i p g)) k i
      = Some (fingerprint p)"
    by (simp add: d recorded_fingerprint_def)
qed

theorem detect_contract_witness:
  "recorded_fingerprint test_graph UserStory ''US_001'' = Some ''H1'' \<and>
   detect source_hash_of ''resend'' 1 UserStory ''US_001''
       \<lparr>p_id = ''US_001'', p_attrs = hashed ''H1'', p_parent = None\<rparr> test_graph
     = (False, test_graph) \<and>
   fst (detect source_hash_of ''story edited'' 1 UserStory ''US_001'' us_001_edited test_graph) \<and>
   recorded_fingerprint edited_graph UserStory ''US_001'' = Some ''H2'' \<and>
   detect source_hash_of ''resend'' 2 UserStory ''US_001'' us_001_edited edited_graph
     = (False, edited_graph)"
proof -
  have rec: "recorded_fingerprint test_graph UserStory ''US_001'' = Some ''H1''"
    by (simp add: recorded_fingerprint_def latest_change_def stored_hash_def test_graph_def
        test_nodes_def hashed_def)
  have h1: "source_hash_of \<lparr>p_id = ''US_001'', p_attrs = hashed ''H1'', p_parent = None\<rparr> = ''H1''"
    by (simp add: source_hash_of_def hashed_def)
  have h2: "source_hash_of us_001_edited = ''H2''"
    by (simp add: source_hash_of_def us_001_edited_def hashed_def)
  note c1 = detect_contract [of test_graph UserStory "''US_001''" source_hash_of
      "\<lparr>p_id = ''US_001'', p_attrs = hashed ''H1'', p_parent = None\<rparr>" "''resend''" 1]
  note c2 = detect_contract [of test_graph UserStory "''US_001''" source_hash_of
      us_001_edited "''story edited''" 1]
  note c3 = detect_contract [of edited_graph UserStory "''US_001''" source_hash_of
      us_001_edited "''resend''" 2]
  from c1 rec h1 have a: "detect source_hash_of ''resend'' 1 UserStory ''US_001''
       \<lparr>p_id = ''US_001'', p_attrs = hashed ''H1'', p_parent = None\<rparr> test_graph
     = (False, test_graph)"
    by simp
  from c2 rec h2 have b: "fst (detect source_hash_of ''story edited'' 1 UserStory ''US_001''
      us_001_edited test_graph)"
    and c: "recorded_fingerprint edited_graph UserStory ''US_001'' = Some ''H2''"
    by (auto simp: edited_graph_def)
  from c3 c h2 have "detect source_hash_of ''resend'' 2 UserStory ''US_001'' us_001_edited edited_graph
     = (False, edited_graph)"
    by simp
  with rec a b c show ?thesis by simp
qed

section \<open>Properties of the dirty marking statements\<close>

lemma dirty_whole_mark_node: "dirty_whole (mark_node reason now ps)"
  by (simp add: dirty_whole_def mark_node_def)

lemma dirty_free_clear_node: "dirty_free (clear_node ps)"
  by (simp add: dirty_free_def clear_node_def)

lemma dirty_free_whole: "dirty_free ps \<Longrightarrow> dirty_whole ps"
  by (simp add: dirty_free_def dirty_whole_def)

lemma on_nodes_invariant:
  assumes "dirty_invariant g" and "\<And>ps. dirty_whole (f ps)"
  shows "dirty_invariant (on_nodes f ids k g)"
  using assms by (auto simp: dirty_invariant_def on_nodes_def split: if_splits)

lemma clear_all_invariant:
  assumes "dirty_invariant g"
  shows "dirty_invariant (clear_all g)"
  unfolding dirty_invariant_def
proof (intro allI impI)
  fix key ps
  assume "nodes (clear_all g) key = Some ps"
  then obtain ps0 where ps0: "nodes g key = Some ps0"
    and ps: "ps = (if ps0 ''dirty'' = Some (PBool True) then clear_node ps0 else ps0)"
    by (auto simp: clear_all_def)
  from assms ps0 have "dirty_whole ps0" unfolding dirty_invariant_def by blast
  with ps show "dirty_whole ps"
    by (simp add: dirty_free_whole dirty_free_clear_node)
qed

lemma nodes_clear_mark:
  "i \<in> set ids \<Longrightarrow>
   nodes (clear ids k (mark ids k reason now g)) (k, i)
     = map_option (\<lambda>ps. clear_node (mark_node reason now ps)) (nodes g (k, i))"
  by (simp add: clear_def mark_def on_nodes_def option.map_comp comp_def)

lemma nodes_clear_all_mark:
  "i \<in> set ids \<Longrightarrow>
   nodes (clear_all (mark ids k reason now g)) (k, i)
     = map_option (\<lambda>ps. clear_node (mark_node reason now ps)) (nodes g (k, i))"
  by (simp add: clear_all_def mark_def on_nodes_def option.map_comp comp_def mark_node_def)

text \<open>
  C7. The statements keep the invariant that every node has its three dirty fields
  together or none of them: \<open>mark\<close>, \<open>clear\<close> on a list of nodes, and \<open>clear_all\<close> on
  the nodes whose \<^verbatim>\<open>dirty\<close> is true. After \<open>mark\<close> each matched node has all three, with
  the given reason and time; after \<open>mark\<close> followed by \<open>clear\<close> on the same identifiers
  and label, or by \<open>clear_all\<close>, no node of the list keeps any of the three.
\<close>

theorem dirty_fields_atomic:
  "dirty_invariant g \<Longrightarrow>
     dirty_invariant (mark ids k reason now g) \<and>
     dirty_invariant (clear ids k g) \<and>
     dirty_invariant (clear_all g) \<and>
     (\<forall>i \<in> set ids. \<forall>ps. nodes (mark ids k reason now g) (k, i) = Some ps \<longrightarrow>
        ps ''dirty'' = Some (PBool True) \<and> ps ''dirty_reason'' = Some (PStr reason) \<and>
        ps ''dirty_at'' = Some (PTime now)) \<and>
     (\<forall>i \<in> set ids. \<forall>ps. nodes (clear ids k (mark ids k reason now g)) (k, i) = Some ps \<longrightarrow>
        ps ''dirty'' = None \<and> ps ''dirty_reason'' = None \<and> ps ''dirty_at'' = None) \<and>
     (\<forall>i \<in> set ids. \<forall>ps. nodes (clear_all (mark ids k reason now g)) (k, i) = Some ps \<longrightarrow>
        ps ''dirty'' = None \<and> ps ''dirty_reason'' = None \<and> ps ''dirty_at'' = None)"
proof (intro conjI ballI allI impI)
  assume inv: "dirty_invariant g"
  show "dirty_invariant (mark ids k reason now g)"
    unfolding mark_def using inv by (rule on_nodes_invariant) (rule dirty_whole_mark_node)
  show "dirty_invariant (clear ids k g)"
    unfolding clear_def using inv
    by (rule on_nodes_invariant) (rule dirty_free_whole, rule dirty_free_clear_node)
  show "dirty_invariant (clear_all g)"
    using inv by (rule clear_all_invariant)
next
  fix i ps
  assume "i \<in> set ids" and "nodes (mark ids k reason now g) (k, i) = Some ps"
  then obtain ps0 where ps: "ps = mark_node reason now ps0"
    by (auto simp: mark_def on_nodes_def)
  show "ps ''dirty'' = Some (PBool True)" by (simp add: ps mark_node_def)
  show "ps ''dirty_reason'' = Some (PStr reason)" by (simp add: ps mark_node_def)
  show "ps ''dirty_at'' = Some (PTime now)" by (simp add: ps mark_node_def)
next
  fix i ps
  assume "i \<in> set ids" and "nodes (clear ids k (mark ids k reason now g)) (k, i) = Some ps"
  then obtain ps0 where ps: "ps = clear_node (mark_node reason now ps0)"
    by (auto simp: nodes_clear_mark)
  have "dirty_free ps" unfolding ps by (rule dirty_free_clear_node)
  then show "ps ''dirty'' = None" and "ps ''dirty_reason'' = None" and "ps ''dirty_at'' = None"
    by (simp_all add: dirty_free_def)
next
  fix i ps
  assume "i \<in> set ids" and "nodes (clear_all (mark ids k reason now g)) (k, i) = Some ps"
  then obtain ps0 where ps: "ps = clear_node (mark_node reason now ps0)"
    by (auto simp: nodes_clear_all_mark)
  have "dirty_free ps" unfolding ps by (rule dirty_free_clear_node)
  then show "ps ''dirty'' = None" and "ps ''dirty_reason'' = None" and "ps ''dirty_at'' = None"
    by (simp_all add: dirty_free_def)
qed

text \<open>
  Step 1 of the test procedure: \<^verbatim>\<open>AGG_ORDER\<close> is marked dirty with the reason
  \<^verbatim>\<open>test\<close>, then cleared.
\<close>

theorem dirty_fields_atomic_witness:
  "dirty_invariant test_graph \<and>
   dirty_invariant (mark [''AGG_ORDER''] Aggregate ''test'' 5 test_graph) \<and>
   dirty_invariant (clear_all (mark [''AGG_ORDER''] Aggregate ''test'' 5 test_graph)) \<and>
   map_option (\<lambda>ps. (ps ''dirty'', ps ''dirty_reason'', ps ''dirty_at''))
     (nodes (mark [''AGG_ORDER''] Aggregate ''test'' 5 test_graph) (Aggregate, ''AGG_ORDER''))
     = Some (Some (PBool True), Some (PStr ''test''), Some (PTime 5)) \<and>
   map_option (\<lambda>ps. (ps ''dirty'', ps ''dirty_reason'', ps ''dirty_at''))
     (nodes (clear [''AGG_ORDER''] Aggregate
               (mark [''AGG_ORDER''] Aggregate ''test'' 5 test_graph)) (Aggregate, ''AGG_ORDER''))
     = Some (None, None, None) \<and>
   map_option (\<lambda>ps. (ps ''dirty'', ps ''dirty_reason'', ps ''dirty_at''))
     (nodes (clear_all (mark [''AGG_ORDER''] Aggregate ''test'' 5 test_graph))
        (Aggregate, ''AGG_ORDER''))
     = Some (None, None, None)"
proof -
  let ?marked = "mark [''AGG_ORDER''] Aggregate ''test'' 5 test_graph"
  have inv: "dirty_invariant test_graph"
    by (auto simp: dirty_invariant_def test_graph_def test_nodes_def dirty_whole_def hashed_def
        named_def split: if_splits)
  obtain ps where marked: "nodes ?marked (Aggregate, ''AGG_ORDER'') = Some ps"
    by (simp add: mark_def on_nodes_def test_graph_def test_nodes_def)
  obtain ps' where cleared:
    "nodes (clear [''AGG_ORDER''] Aggregate ?marked) (Aggregate, ''AGG_ORDER'') = Some ps'"
    by (simp add: clear_def mark_def on_nodes_def test_graph_def test_nodes_def)
  obtain ps'' where cleared_all:
    "nodes (clear_all ?marked) (Aggregate, ''AGG_ORDER'') = Some ps''"
    by (simp add: clear_all_def mark_def on_nodes_def test_graph_def test_nodes_def)
  note first = dirty_fields_atomic [OF inv, of "[''AGG_ORDER'']" Aggregate "''test''" 5]
  then have inv': "dirty_invariant ?marked" by simp
  note second = dirty_fields_atomic [OF inv', of "[]" Aggregate "''test''" 5]
  from first second inv marked cleared cleared_all show ?thesis by simp
qed

section \<open>Properties of the Run Tracker\<close>

lemma forward_refl: "forward s s"
  by (simp add: forward_def)

lemma forward_trans: "forward a b \<Longrightarrow> forward b c \<Longrightarrow> forward a c"
  by (auto simp: forward_def)

lemma forward_terminal: "terminal s \<Longrightarrow> forward s s' \<Longrightarrow> s' = s"
  by (cases s; cases s') (auto simp: forward_def)

lemma forward_status_of: "\<not> terminal s \<Longrightarrow> forward s (status_of f)"
  by (cases s; cases f) (auto simp: forward_def)

text \<open>\<open>forward\<close> is the reflexive and transitive closure of the steps of the chain.\<close>

lemma status_step_forward: "status_step s s' \<Longrightarrow> forward s s'"
  by (induction rule: status_step.induct) (simp_all add: forward_def)

lemma forward_iff_steps: "forward s s' \<longleftrightarrow> status_step\<^sup>*\<^sup>* s s'"
proof
  assume "status_step\<^sup>*\<^sup>* s s'"
  then show "forward s s'"
    by (induction rule: rtranclp_induct) (auto intro: forward_refl forward_trans status_step_forward)
next
  have qr: "status_step\<^sup>*\<^sup>* Queued Running"
    by (rule r_into_rtranclp) (rule status_step.intros)
  have rc: "status_step\<^sup>*\<^sup>* Running Completed"
    by (rule r_into_rtranclp) (rule status_step.intros)
  have rf: "status_step\<^sup>*\<^sup>* Running Failed"
    by (rule r_into_rtranclp) (rule status_step.intros)
  assume "forward s s'"
  then show "status_step\<^sup>*\<^sup>* s s'"
    using qr rc rf rtranclp_trans [OF qr rc] rtranclp_trans [OF qr rf]
    by (cases s; cases s') (simp_all add: forward_def)
qed

lemma find_snoc:
  "find P (xs @ [x]) = (case find P xs of Some y \<Rightarrow> Some y | None \<Rightarrow> if P x then Some x else None)"
  by (induction xs) auto

lemma find_update_run_same:
  assumes "\<And>r. run_id (f r) = run_id r"
  shows "find (\<lambda>r. run_id r = rid) (update_run rid f rs)
     = map_option f (find (\<lambda>r. run_id r = rid) rs)"
  using assms by (induction rs) auto

lemma find_update_run_other:
  assumes "\<And>r. run_id (f r) = run_id r" and "rid \<noteq> rid'"
  shows "find (\<lambda>r. run_id r = rid) (update_run rid' f rs) = find (\<lambda>r. run_id r = rid) rs"
  using assms by (induction rs) auto

text \<open>One call: the Run found under an id is still found, and its status has not moved back.\<close>

lemma call_find_run:
  assumes "find_run g rid = Some r"
  shows "\<exists>r'. find_run (call c g) rid = Some r' \<and> forward (run_status r) (run_status r')"
proof (cases c)
  case (Start phase agent now)
  with assms show ?thesis
    by (simp add: start_def find_run_def find_snoc Let_def forward_refl)
next
  case (Touch rid' nodeIds)
  with assms show ?thesis
    by (auto simp: touch_def find_run_def forward_refl split: option.splits sum.splits if_splits)
next
  case (Finish rid' status now)
  show ?thesis
  proof (cases "finish rid' status now g")
    case (Inl e)
    with Finish assms show ?thesis by (simp add: forward_refl)
  next
    case (Inr g')
    then obtain r0 where r0: "find_run g rid' = Some r0" and nt: "\<not> terminal (run_status r0)"
      and g': "g' = g\<lparr>runs := update_run rid'
                  (\<lambda>r. r\<lparr>run_status := status_of status, ended_at := Some now\<rparr>) (runs g)\<rparr>"
      by (auto simp: finish_def split: option.splits if_splits)
    show ?thesis
    proof (cases "rid = rid'")
      case True
      with assms r0 have "r0 = r" by simp
      with True assms nt Finish Inr g' show ?thesis
        by (simp add: find_run_def find_update_run_same forward_status_of)
    next
      case False
      with assms Finish Inr g' show ?thesis
        by (simp add: find_run_def find_update_run_other forward_refl)
    qed
  qed
qed

lemma call_terminal_frame:
  assumes "find_run g rid = Some r" and "terminal (run_status r)"
  shows "find_run (call c g) rid = Some r \<and> touched_by (call c g) rid = touched_by g rid"
proof (cases c)
  case (Start phase agent now)
  with assms show ?thesis
    by (simp add: start_def find_run_def find_snoc Let_def touched_by_def)
next
  case (Touch rid' nodeIds)
  show ?thesis
  proof (cases "rid' = rid")
    case True
    with assms Touch show ?thesis by (simp add: touch_def)
  next
    case False
    with assms Touch show ?thesis
      by (auto simp: touch_def find_run_def touched_by_def split: option.splits sum.splits)
  qed
next
  case (Finish rid' status now)
  show ?thesis
  proof (cases "rid' = rid")
    case True
    with assms Finish show ?thesis by (simp add: finish_def)
  next
    case False
    with assms Finish show ?thesis
      by (auto simp: finish_def find_run_def touched_by_def find_update_run_other
          split: option.splits sum.splits)
  qed
qed

lemma calls_find_run:
  "find_run g rid = Some r \<Longrightarrow>
   \<exists>r'. find_run (fold call cs g) rid = Some r' \<and> forward (run_status r) (run_status r')"
proof (induction cs arbitrary: g r)
  case Nil
  then show ?case by (simp add: forward_refl)
next
  case (Cons c cs)
  from call_find_run [OF Cons.prems, of c] obtain r1
    where r1: "find_run (call c g) rid = Some r1" and f1: "forward (run_status r) (run_status r1)"
    by blast
  from Cons.IH [OF r1] obtain r'
    where "find_run (fold call cs (call c g)) rid = Some r'"
      and "forward (run_status r1) (run_status r')"
    by blast
  with f1 show ?case by (auto intro: forward_trans)
qed

lemma calls_terminal_frame:
  "find_run g rid = Some r \<Longrightarrow> terminal (run_status r) \<Longrightarrow>
   find_run (fold call cs g) rid = Some r \<and> touched_by (fold call cs g) rid = touched_by g rid"
proof (induction cs arbitrary: g)
  case Nil
  then show ?case by simp
next
  case (Cons c cs)
  from call_terminal_frame [OF Cons.prems, of c]
  have 1: "find_run (call c g) rid = Some r" and 2: "touched_by (call c g) rid = touched_by g rid"
    by simp_all
  from Cons.IH [OF 1 Cons.prems(2)] 2 show ?case by simp
qed

text \<open>
  C8. Through any history of tracker calls, a Run keeps its place and its status only
  moves along the chain queued, running, completed or failed (by steps of the chain, none
  or several). Once the Run is in a terminal state it stays as it is, its \<^verbatim>\<open>TOUCHED\<close>
  edges stay the same, a further \<open>touch\<close> is refused with an error, and \<open>finish\<close>
  fails with \<open>InvalidPhaseSequence\<close>.
\<close>

theorem run_status_monotone:
  "find_run g rid = Some r \<Longrightarrow>
     (\<exists>r'. find_run (fold call cs g) rid = Some r' \<and>
           status_step\<^sup>*\<^sup>* (run_status r) (run_status r') \<and>
           rank (run_status r) \<le> rank (run_status r')) \<and>
     (terminal (run_status r) \<longrightarrow>
        find_run (fold call cs g) rid = Some r \<and>
        touched_by (fold call cs g) rid = touched_by g rid \<and>
        isl (touch rid nodeIds (fold call cs g)) \<and>
        finish rid status now (fold call cs g) = Inl InvalidPhaseSequence)"
proof (intro conjI impI)
  assume "find_run g rid = Some r"
  then obtain r' where "find_run (fold call cs g) rid = Some r'"
    and "forward (run_status r) (run_status r')"
    using calls_find_run by blast
  then show "\<exists>r'. find_run (fold call cs g) rid = Some r' \<and>
           status_step\<^sup>*\<^sup>* (run_status r) (run_status r') \<and>
           rank (run_status r) \<le> rank (run_status r')"
    by (auto simp: forward_iff_steps [symmetric] forward_def)
next
  assume "find_run g rid = Some r" and "terminal (run_status r)"
  then have fr: "find_run (fold call cs g) rid = Some r"
    and tb: "touched_by (fold call cs g) rid = touched_by g rid"
    using calls_terminal_frame by blast+
  from fr show "find_run (fold call cs g) rid = Some r" .
  from tb show "touched_by (fold call cs g) rid = touched_by g rid" .
  from fr \<open>terminal (run_status r)\<close>
  show "isl (touch rid nodeIds (fold call cs g))"
    by (simp add: touch_def)
  from fr \<open>terminal (run_status r)\<close>
  show "finish rid status now (fold call cs g) = Inl InvalidPhaseSequence"
    by (simp add: finish_def)
qed

theorem run_status_monotone_witness:
  "find_run started_graph ''RUN_0''
     = Some \<lparr>run_id = ''RUN_0'', run_phase = ''A'', run_agent = ''aggregate_draft'',
             run_status = Running, started_at = 1, ended_at = None\<rparr> \<and>
   find_run (fold call first_calls started_graph) ''RUN_0''
     = Some \<lparr>run_id = ''RUN_0'', run_phase = ''A'', run_agent = ''aggregate_draft'',
             run_status = Completed, started_at = 1, ended_at = Some 2\<rparr> \<and>
   find_run (fold call late_calls (fold call first_calls started_graph)) ''RUN_0''
     = Some \<lparr>run_id = ''RUN_0'', run_phase = ''A'', run_agent = ''aggregate_draft'',
             run_status = Completed, started_at = 1, ended_at = Some 2\<rparr> \<and>
   touched_by (fold call late_calls (fold call first_calls started_graph)) ''RUN_0''
     = [''AGG_ORDER''] \<and>
   isl (touch ''RUN_0'' [''F_ORDER_AMOUNT'']
          (fold call late_calls (fold call first_calls started_graph))) \<and>
   finish ''RUN_0'' FinalFailed 5 (fold call late_calls (fold call first_calls started_graph))
     = Inl InvalidPhaseSequence"
proof -
  have a: "find_run started_graph ''RUN_0''
     = Some \<lparr>run_id = ''RUN_0'', run_phase = ''A'', run_agent = ''aggregate_draft'',
             run_status = Running, started_at = 1, ended_at = None\<rparr>"
    by code_simp
  have b: "find_run (fold call first_calls started_graph) ''RUN_0''
     = Some \<lparr>run_id = ''RUN_0'', run_phase = ''A'', run_agent = ''aggregate_draft'',
             run_status = Completed, started_at = 1, ended_at = Some 2\<rparr>"
    by code_simp
  have t: "touched_by (fold call first_calls started_graph) ''RUN_0'' = [''AGG_ORDER'']"
    by code_simp
  from run_status_monotone [OF b, of late_calls "[''F_ORDER_AMOUNT'']" FinalFailed 5] a b t
  show ?thesis by simp
qed

end
